theory Spec2Isabelle
  imports Main "HOL-Library.Word"
begin

section \<open>The MSFT\_lod loader extension: progressive loading of levels of detail\<close>

text \<open>
  The development embeds \<^verbatim>\<open>src/loaders/src/glTF/2.0/Extensions/MSFT_lod.ts\<close>.
  Every method of the class is a function on an explicit state; a JavaScript exception
  is the left summand of a sum type.
\<close>

subsection \<open>Errors\<close>

datatype error =
    MaxLODsError          \<comment> \<open>\<^verbatim>\<open>maxLODsToLoad must be greater than zero\<close>\<close>
  | IndexError int        \<comment> \<open>\<^verbatim>\<open>ArrayItem.Get\<close> fails for this index\<close>
  | MissingBinError       \<comment> \<open>\<^verbatim>\<open>Uri is missing or the binary glTF is missing its binary chunk\<close>\<close>
  | TypeError             \<comment> \<open>a property is read from \<^verbatim>\<open>undefined\<close>\<close>
  | RangeError            \<comment> \<open>a typed array is built outside its buffer\<close>

subsection \<open>Resolving the list of levels: \<^verbatim>\<open>_getLODs\<close>\<close>

definition ArrayItem_Get :: "'a list option \<Rightarrow> int \<Rightarrow> error + 'a" where
  \<comment> \<open>Modelled from the spec: \<^verbatim>\<open>ArrayItem.Get\<close> lives in \<^verbatim>\<open>glTFLoader.ts\<close>, which is not part
      of the sources at hand. The spec describes it as an index-checked lookup into a
      declared array that fails with an out-of-range error.\<close>
  "ArrayItem_Get array index =
     (case array of
        None \<Rightarrow> Inl (IndexError index)
      | Some xs \<Rightarrow>
          if 0 \<le> index \<and> nat index < length xs then Inr (xs ! nat index)
          else Inl (IndexError index))"

text \<open>
  The loop \<^verbatim>\<open>for (let i = ids.length - 1; i >= 0; i--)\<close>. The counter of the model is
  \<open>i + 1\<close>, so that the loop ends at \<open>0\<close>. The Boolean of the result tells whether the loop
  was left by the \<^verbatim>\<open>return properties\<close> inside its body.
\<close>

fun getLODs_loop ::
  "int \<Rightarrow> 'a list option \<Rightarrow> int list \<Rightarrow> nat \<Rightarrow> 'a list \<Rightarrow> error + ('a list \<times> bool)" where
  "getLODs_loop maxLODs array ids 0 properties = Inr (properties, False)"
| "getLODs_loop maxLODs array ids (Suc i) properties =
     (case ArrayItem_Get array (ids ! i) of
        Inl e \<Rightarrow> Inl e
      | Inr p \<Rightarrow>
          let properties' = properties @ [p] in
          if int (length properties') = maxLODs then Inr (properties', True)
          else getLODs_loop maxLODs array ids i properties')"

definition getLODs :: "int \<Rightarrow> 'a \<Rightarrow> 'a list option \<Rightarrow> int list \<Rightarrow> error + 'a list" where
  "getLODs maxLODs property array ids =
     (if maxLODs \<le> 0 then Inl MaxLODsError
      else case getLODs_loop maxLODs array ids (length ids) [] of
             Inl e \<Rightarrow> Inl e
           | Inr (properties, True) \<Rightarrow> Inr properties
           | Inr (properties, False) \<Rightarrow> Inr (properties @ [property]))"

subsection \<open>Values of the runtime\<close>

text \<open>
  A JavaScript array may have holes, and an assignment beyond its end extends it:
  an array is a list of options, \<open>None\<close> for a hole.
\<close>

definition js_get :: "'a option list \<Rightarrow> nat \<Rightarrow> 'a option" where
  "js_get xs i = (if i < length xs then xs ! i else None)"

definition js_set :: "'a option list \<Rightarrow> nat \<Rightarrow> 'a \<Rightarrow> 'a option list" where
  "js_set xs i v =
     (if i < length xs then xs[i := Some v]
      else xs @ replicate (i - length xs) None @ [Some v])"

text \<open>A promise, and the promise of a \<^verbatim>\<open>Deferred\<close>, is pending or settled, once.\<close>

datatype 'a promise = Pending | Fulfilled 'a | Rejected

definition settle :: "'a promise \<Rightarrow> 'a option \<Rightarrow> 'a promise" where
  \<comment> \<open>\<^verbatim>\<open>resolve\<close> (\<open>Some\<close>) or \<^verbatim>\<open>reject\<close> (\<open>None\<close>); a settled promise keeps its state\<close>
  "settle p outcome =
     (case p of
        Pending \<Rightarrow> (case outcome of Some v \<Rightarrow> Fulfilled v | None \<Rightarrow> Rejected)
      | _ \<Rightarrow> p)"

type_synonym byte = "8 word"

record ArrayBufferView =
  buffer :: "byte list"
  byteOffset :: int
  byteLength :: int

definition Uint8Array :: "byte list \<Rightarrow> int \<Rightarrow> int \<Rightarrow> error + ArrayBufferView" where
  \<comment> \<open>\<^verbatim>\<open>new Uint8Array(buffer, byteOffset, length)\<close>: a view, or a \<^verbatim>\<open>RangeError\<close>\<close>
  "Uint8Array buf off len =
     (if 0 \<le> off \<and> 0 \<le> len \<and> off + len \<le> int (length buf)
      then Inr \<lparr>buffer = buf, byteOffset = off, byteLength = len\<rparr>
      else Inl RangeError)"

definition view_bytes :: "ArrayBufferView \<Rightarrow> byte list" where
  "view_bytes v = take (nat (byteLength v)) (drop (nat (byteOffset v)) (buffer v))"

subsection \<open>The state\<close>

type_synonym tnode = nat  \<comment> \<open>a \<^verbatim>\<open>TransformNode\<close>\<close>
type_synonym bmat = nat   \<comment> \<open>a Babylon \<^verbatim>\<open>Material\<close>\<close>
type_synonym mesh = nat   \<comment> \<open>a \<^verbatim>\<open>Mesh\<close>\<close>

datatype kind = NodeK | MaterialK

record bufferLOD =
  start :: int
  end' :: int
  loaded :: "ArrayBufferView promise"

text \<open>
  One entry of \<^verbatim>\<open>material._data\<close>, as \<^verbatim>\<open>_disposeUnusedMaterials\<close> and
  \<^verbatim>\<open>_loadMaterialAsync\<close> read it.
\<close>

record matdata =
  babylonMaterial :: bmat
  babylonMeshes :: "mesh list"

text \<open>
  The iteration of a \<^verbatim>\<open>for\<close> loop of \<^verbatim>\<open>loadNodeAsync\<close> or \<^verbatim>\<open>_loadMaterialAsync\<close> that
  is waiting for the loader's own load call to return. Nodes and materials are named
  by their index in \<^verbatim>\<open>gltf.nodes\<close> and \<^verbatim>\<open>gltf.materials\<close>.
\<close>

record frame =
  f_kind :: kind
  f_lods :: "nat list"     \<comment> \<open>\<^verbatim>\<open>nodeLODs\<close>, \<^verbatim>\<open>materialLODs\<close>\<close>
  f_index :: nat           \<comment> \<open>\<^verbatim>\<open>indexLOD\<close>\<close>
  f_mesh :: mesh           \<comment> \<open>\<^verbatim>\<open>babylonMesh\<close> (materials)\<close>
  f_drawMode :: nat        \<comment> \<open>\<^verbatim>\<open>babylonDrawMode\<close> (materials)\<close>

text \<open>
  The promise \<^verbatim>\<open>this._loader.loadNodeAsync(...).then(...)\<close> of one level (and the one of
  \<^verbatim>\<open>this._loader._loadMaterialAsync(...).then(...)\<close>): the loader's promise, the variables
  the continuation has captured, and the promise of the continuation itself, which is
  the one pushed on \<^verbatim>\<open>_nodePromiseLODs\<close>.
\<close>

record task =
  t_kind :: kind
  t_lods :: "nat list"
  t_index :: nat
  t_mesh :: mesh
  t_drawMode :: nat
  t_host :: "nat promise"    \<comment> \<open>the loader's promise and the object it is fulfilled with\<close>
  t_then :: "unit promise"   \<comment> \<open>the promise returned by \<^verbatim>\<open>then\<close>\<close>

record ready =
  r_kind :: kind
  r_index :: nat
  r_all :: "nat list option"   \<comment> \<open>the argument of \<^verbatim>\<open>Promise.all\<close>\<close>
  r_fired :: bool

record urireq =
  u_kind :: kind
  u_prev :: int                \<comment> \<open>\<^verbatim>\<open>previousIndexLOD\<close>\<close>
  u_issued :: bool

record bufreq =
  b_level :: nat               \<comment> \<open>the index of the captured \<^verbatim>\<open>bufferLOD\<close>\<close>
  b_offset :: int              \<comment> \<open>\<^verbatim>\<open>byteOffset\<close>\<close>
  b_length :: int              \<comment> \<open>\<^verbatim>\<open>byteLength\<close>\<close>
  b_result :: "ArrayBufferView promise"

record read =
  rd_level :: nat
  rd_start :: int
  rd_length :: int
  rd_settled :: bool

datatype event =
    SetEnabledFalse tnode        \<comment> \<open>line 153, the \<^verbatim>\<open>assign\<close> callback of a node level\<close>
  | Settle nat bool              \<comment> \<open>the loader's promise of a level settles (\<open>True\<close>: fulfilled)\<close>
  | DisposeNode nat tnode        \<comment> \<open>line 159, in the continuation of the given level promise\<close>
  | DisposeMaterial bmat         \<comment> \<open>line 347\<close>
  | SetEnabledTrue nat tnode     \<comment> \<open>line 165, in the continuation of the given level promise\<close>
  | Assign mesh bmat             \<comment> \<open>lines 215 and 219\<close>
  | DisposePrevMaterial nat bmat \<comment> \<open>line 224, in the continuation of the given level promise\<close>
  | LODsLoaded kind nat          \<comment> \<open>lines 97 and 117, \<^verbatim>\<open>notifyObservers\<close>\<close>
  | ResolveSignal kind nat       \<comment> \<open>lines 102 and 122\<close>
  | ReadAsync nat int int        \<comment> \<open>line 309: level, offset and length of the read\<close>
  | LoadUri nat kind int         \<comment> \<open>lines 262 and 270, for a deferred request and the signal it waited for\<close>

text \<open>
  The fields of the class, in the order of their declaration. A signal array is only
  read and written by index, and the index \<^verbatim>\<open>previousIndexLOD\<close> is computed by a
  subtraction, so it is a map on the integers. A \<^verbatim>\<open>Deferred<void>\<close> is only ever resolved:
  \<open>Some False\<close> is a pending signal, \<open>Some True\<close> a resolved one.
\<close>

record MSFT_lod =
  maxLODsToLoad :: int
  nodeIndexLOD :: "nat option"
  nodeSignalLODs :: "int \<Rightarrow> bool option"
  nodePromiseLODs :: "nat list option list"
  materialIndexLOD :: "nat option"
  materialSignalLODs :: "int \<Rightarrow> bool option"
  materialPromiseLODs :: "nat list option list"
  this_indexLOD :: "nat option"    \<comment> \<open>\<^verbatim>\<open>this._indexLOD\<close>, apart from the loop variable \<^verbatim>\<open>indexLOD\<close>\<close>
  bufferLODs :: "bufferLOD option list"

text \<open>
  The extension together with what it reads and writes of the loader
  (\<^verbatim>\<open>this._loader\<close>), the iterations in progress, the continuations it has registered
  and the calls it has made.
\<close>

record world = MSFT_lod +
  useRangeRequests :: bool                       \<comment> \<open>\<^verbatim>\<open>_loader.parent.useRangeRequests\<close>\<close>
  bin :: "byte list option"                      \<comment> \<open>\<^verbatim>\<open>_loader.bin\<close>, the binary chunk\<close>
  nodes :: "tnode option list option"            \<comment> \<open>\<^verbatim>\<open>_babylonTransformNode\<close> of \<^verbatim>\<open>gltf.nodes\<close>\<close>
  materials :: "(nat \<times> matdata) list option list option"
                                                 \<comment> \<open>\<^verbatim>\<open>_data\<close> of \<^verbatim>\<open>gltf.materials\<close>, by draw mode\<close>
  meshMaterial :: "mesh \<Rightarrow> bmat option"          \<comment> \<open>\<^verbatim>\<open>babylonMesh.material\<close>\<close>
  stack :: "frame list"
  tasks :: "task list"
  readies :: "ready list"
  uris :: "urireq list"
  bufreqs :: "bufreq list"
  reads :: "read list"
  readyCalled :: bool
  events :: "event list"                         \<comment> \<open>the newest event first\<close>

definition truthy :: "nat option \<Rightarrow> bool" where
  \<comment> \<open>a nullable number used as a condition: \<^verbatim>\<open>null\<close> and \<^verbatim>\<open>0\<close> are false\<close>
  "truthy x = (case x of None \<Rightarrow> False | Some n \<Rightarrow> n \<noteq> 0)"

definition or_zero :: "nat option \<Rightarrow> nat" where
  \<comment> \<open>\<^verbatim>\<open>x || 0\<close> for a nullable number\<close>
  "or_zero x = (case x of None \<Rightarrow> 0 | Some n \<Rightarrow> n)"

definition truthy_string :: "string option \<Rightarrow> bool" where
  \<comment> \<open>an optional string used as a condition: \<^verbatim>\<open>undefined\<close> and the empty string are false\<close>
  "truthy_string x = (case x of None \<Rightarrow> False | Some s \<Rightarrow> s \<noteq> [])"

subsection \<open>Byte ranges: \<^verbatim>\<open>loadBufferAsync\<close> and \<^verbatim>\<open>_loadBufferLOD\<close>\<close>

text \<open>
  \<^verbatim>\<open>loadBufferAsync\<close> (lines 278-305) returns \<^verbatim>\<open>null\<close> (\<open>None\<close>) or the promise
  \<^verbatim>\<open>bufferLOD.loaded.promise.then(...)\<close>, which is the number of the new entry of
  \<open>bufreqs\<close>. The continuation has captured \<^verbatim>\<open>bufferLOD\<close>; a slot of \<^verbatim>\<open>_bufferLODs\<close> is
  assigned once, when it is empty, so the index of the slot stands for the object.
\<close>

definition loadBufferAsync ::
  "string option \<Rightarrow> int \<Rightarrow> int \<Rightarrow> world \<Rightarrow> error + (nat option \<times> world)" where
  \<comment> \<open>the arguments are \<^verbatim>\<open>buffer.uri\<close>, \<^verbatim>\<open>byteOffset\<close> and \<^verbatim>\<open>byteLength\<close>\<close>
  "loadBufferAsync uri offset len w =
     (if useRangeRequests w \<and> \<not> truthy_string uri then
        if bin w = None then Inl MissingBinError
        else
          let indexLOD = or_zero (this_indexLOD w);
              start0 = offset;
              end0 = start0 + len - 1;
              bufferLOD =
                (case js_get (bufferLODs w) indexLOD of
                   Some bufferLOD \<Rightarrow>
                     bufferLOD\<lparr>start := min (start bufferLOD) start0,
                               end' := max (end' bufferLOD) end0\<rparr>
                 | None \<Rightarrow> \<lparr>start = start0, end' = end0, loaded = Pending\<rparr>)
          in Inr (Some (length (bufreqs w)),
                  w\<lparr>bufferLODs := js_set (bufferLODs w) indexLOD bufferLOD,
                    bufreqs := bufreqs w @
                      [\<lparr>b_level = indexLOD, b_offset = offset, b_length = len,
                        b_result = Pending\<rparr>]\<rparr>)
      else Inr (None, w))"

definition loadBufferAsync_then :: "bufreq \<Rightarrow> bufferLOD \<Rightarrow> ArrayBufferView \<Rightarrow> error + ArrayBufferView" where
  \<comment> \<open>lines 299-301, with \<^verbatim>\<open>bufferLOD.start\<close> read when the continuation runs\<close>
  "loadBufferAsync_then rq bufferLOD data =
     Uint8Array (buffer data) (byteOffset data + b_offset rq - start bufferLOD) (b_length rq)"

definition loadBufferLOD :: "nat \<Rightarrow> world \<Rightarrow> error + world" where
  \<comment> \<open>lines 307-314: the call of \<^verbatim>\<open>readAsync\<close>; its two continuations are \<open>readAsync_settled\<close>\<close>
  "loadBufferLOD indexLOD w =
     (case js_get (bufferLODs w) indexLOD of
        None \<Rightarrow> Inl TypeError
      | Some bufferLOD \<Rightarrow>
          if bin w = None then Inl TypeError
          else Inr (w\<lparr>reads := reads w @
                        [\<lparr>rd_level = indexLOD, rd_start = start bufferLOD,
                          rd_length = end' bufferLOD - start bufferLOD + 1,
                          rd_settled = False\<rparr>],
                      events := ReadAsync indexLOD (start bufferLOD)
                                  (end' bufferLOD - start bufferLOD + 1) # events w\<rparr>))"

definition readAsync_settled :: "nat \<Rightarrow> ArrayBufferView option \<Rightarrow> world \<Rightarrow> world" where
  \<comment> \<open>lines 309-313: \<^verbatim>\<open>bufferLOD.loaded.resolve(data)\<close> or \<^verbatim>\<open>bufferLOD.loaded.reject(error)\<close>\<close>
  "readAsync_settled r outcome w =
     (let rd = reads w ! r in
      w\<lparr>reads := (reads w)[r := rd\<lparr>rd_settled := True\<rparr>],
        bufferLODs :=
          (case js_get (bufferLODs w) (rd_level rd) of
             None \<Rightarrow> bufferLODs w
           | Some bufferLOD \<Rightarrow>
               (bufferLODs w)[rd_level rd :=
                  Some (bufferLOD\<lparr>loaded := settle (loaded bufferLOD) outcome\<rparr>)])\<rparr>)"

definition bufreq_run :: "nat \<Rightarrow> world \<Rightarrow> world option" where
  \<comment> \<open>the continuation of \<^verbatim>\<open>bufferLOD.loaded.promise\<close> runs once that promise is settled\<close>
  "bufreq_run b w =
     (if b < length (bufreqs w) \<and> b_result (bufreqs w ! b) = Pending then
        let rq = bufreqs w ! b in
        case js_get (bufferLODs w) (b_level rq) of
          None \<Rightarrow> None
        | Some bufferLOD \<Rightarrow>
            (case loaded bufferLOD of
               Pending \<Rightarrow> None
             | Rejected \<Rightarrow> Some (w\<lparr>bufreqs := (bufreqs w)[b := rq\<lparr>b_result := Rejected\<rparr>]\<rparr>)
             | Fulfilled data \<Rightarrow>
                 Some (w\<lparr>bufreqs := (bufreqs w)[b := rq\<lparr>b_result :=
                   (case loadBufferAsync_then rq bufferLOD data of
                      Inl e \<Rightarrow> Rejected
                    | Inr v \<Rightarrow> Fulfilled v)\<rparr>]\<rparr>))
      else None)"

subsection \<open>Deferred loads: \<^verbatim>\<open>_loadUriAsync\<close>\<close>

definition signals :: "kind \<Rightarrow> world \<Rightarrow> int \<Rightarrow> bool option" where
  "signals k w = (case k of NodeK \<Rightarrow> nodeSignalLODs w | MaterialK \<Rightarrow> materialSignalLODs w)"

definition or_new :: "(int \<Rightarrow> bool option) \<Rightarrow> int \<Rightarrow> int \<Rightarrow> bool option" where
  \<comment> \<open>\<^verbatim>\<open>a[i] = a[i] || new Deferred()\<close>\<close>
  "or_new a i = (case a i of Some d \<Rightarrow> a | None \<Rightarrow> a(i \<mapsto> False))"

definition loadUriAsync :: "world \<Rightarrow> nat option \<times> world" where
  \<comment> \<open>lines 255-275; the promise returned is the number of the new entry of \<open>uris\<close>\<close>
  "loadUriAsync w =
     (case materialIndexLOD w of
        Some i \<Rightarrow>
          let previousIndexLOD = int i - 1 in
          (Some (length (uris w)),
           w\<lparr>materialSignalLODs := or_new (materialSignalLODs w) previousIndexLOD,
             uris := uris w @
               [\<lparr>u_kind = MaterialK, u_prev = previousIndexLOD, u_issued = False\<rparr>]\<rparr>)
      | None \<Rightarrow>
          (case nodeIndexLOD w of
             Some i \<Rightarrow>
               let previousIndexLOD = int i - 1 in
               (Some (length (uris w)),
                w\<lparr>nodeSignalLODs := or_new (nodeSignalLODs w) previousIndexLOD,
                  uris := uris w @
                    [\<lparr>u_kind = NodeK, u_prev = previousIndexLOD, u_issued = False\<rparr>]\<rparr>)
           | None \<Rightarrow> (None, w)))"

definition urireq_run :: "nat \<Rightarrow> world \<Rightarrow> world option" where
  \<comment> \<open>lines 261-263 and 269-271: the continuation of the signal's promise calls
      \<^verbatim>\<open>this._loader.loadUriAsync\<close> once the signal is resolved\<close>
  "urireq_run u w =
     (if u < length (uris w) \<and> \<not> u_issued (uris w ! u)
         \<and> signals (u_kind (uris w ! u)) w (u_prev (uris w ! u)) = Some True
      then Some (w\<lparr>uris := (uris w)[u := (uris w ! u)\<lparr>u_issued := True\<rparr>],
                   events := LoadUri u (u_kind (uris w ! u)) (u_prev (uris w ! u)) # events w\<rparr>)
      else None)"

subsection \<open>Unused materials: \<^verbatim>\<open>_disposeUnusedMaterials\<close>\<close>

fun disposeUnused_modes ::
  "(mesh \<Rightarrow> bmat option) \<Rightarrow> (nat \<times> matdata) list \<Rightarrow> (nat \<times> matdata) list \<times> bmat list" where
  "disposeUnused_modes mm [] = ([], [])"
| "disposeUnused_modes mm ((drawMode, data) # rest) =
     (let (kept, disposed) = disposeUnused_modes mm rest in
      if list_all (\<lambda>babylonMesh. mm babylonMesh \<noteq> Some (babylonMaterial data)) (babylonMeshes data)
      then (kept, babylonMaterial data # disposed)
      else ((drawMode, data) # kept, disposed))"

fun disposeUnused_loop ::
  "(mesh \<Rightarrow> bmat option) \<Rightarrow> (nat \<times> matdata) list option list
     \<Rightarrow> (nat \<times> matdata) list option list \<times> bmat list" where
  "disposeUnused_loop mm [] = ([], [])"
| "disposeUnused_loop mm (material # rest) =
     (let (rest', disposed') = disposeUnused_loop mm rest in
      case material of
        None \<Rightarrow> (None # rest', disposed')
      | Some data \<Rightarrow>
          let (kept, disposed) = disposeUnused_modes mm data in
          (Some kept # rest', disposed @ disposed'))"

definition disposeUnusedMaterials :: "world \<Rightarrow> world" where
  \<comment> \<open>lines 337-354; the materials disposed are logged in the order of the two loops\<close>
  "disposeUnusedMaterials w =
     (case materials w of
        None \<Rightarrow> w
      | Some ms \<Rightarrow>
          let (ms', disposed) = disposeUnused_loop (meshMaterial w) ms in
          w\<lparr>materials := Some ms', events := rev (map DisposeMaterial disposed) @ events w\<rparr>)"

subsection \<open>Levels of a node: \<^verbatim>\<open>loadNodeAsync\<close>\<close>

text \<open>
  \<^verbatim>\<open>GLTFLoader.LoadExtensionAsync\<close> is not part of the sources at hand. The argument
  \<open>extension\<close> is what it passes on: \<open>None\<close> when the property has no \<^verbatim>\<open>MSFT_lod\<close>
  extension, so that the method returns \<^verbatim>\<open>null\<close>, and the \<^verbatim>\<open>ids\<close> of the extension
  otherwise.

  The body of the loop calls \<^verbatim>\<open>this._loader.loadNodeAsync\<close>, which calls back into the
  extension before it returns. So one iteration is two functions: \<open>loadNodeAsync_begin\<close>
  is the body up to that call (lines 146-151) and \<open>loadNodeAsync_end\<close> the body after it
  (\<^verbatim>\<open>then\<close> of line 154 and lines 169-183). \<open>loadNodeAsync_then\<close> is the continuation of
  lines 154-167.
\<close>

definition node_field :: "world \<Rightarrow> nat \<Rightarrow> tnode option" where
  \<comment> \<open>\<^verbatim>\<open>_babylonTransformNode\<close> of a node\<close>
  "node_field w n =
     (case nodes w of None \<Rightarrow> None | Some ns \<Rightarrow> if n < length ns then ns ! n else None)"

definition material_field :: "world \<Rightarrow> nat \<Rightarrow> (nat \<times> matdata) list option" where
  \<comment> \<open>\<^verbatim>\<open>_data\<close> of a material\<close>
  "material_field w m =
     (case materials w of None \<Rightarrow> None | Some ms \<Rightarrow> if m < length ms then ms ! m else None)"

definition loadNodeAsync_begin :: "nat \<Rightarrow> world \<Rightarrow> world" where
  "loadNodeAsync_begin indexLOD w =
     (let w1 = w\<lparr>this_indexLOD := Some indexLOD\<rparr> in
      if indexLOD \<noteq> 0
      then w1\<lparr>nodeIndexLOD := Some indexLOD,
              nodeSignalLODs := or_new (nodeSignalLODs w1) (int indexLOD)\<rparr>
      else w1)"

definition push_promise :: "nat list option list \<Rightarrow> nat \<Rightarrow> nat \<Rightarrow> nat list option list" where
  \<comment> \<open>\<^verbatim>\<open>a[i] = a[i] || []; a[i].push(promise)\<close>\<close>
  "push_promise a i promise =
     js_set a i ((case js_get a i of Some ps \<Rightarrow> ps | None \<Rightarrow> []) @ [promise])"

definition loadNodeAsync_end :: "frame \<Rightarrow> world \<Rightarrow> error + world" where
  "loadNodeAsync_end f w =
     (let indexLOD = f_index f;
          promise = length (tasks w);
          w1 = w\<lparr>tasks := tasks w @
                 [\<lparr>t_kind = NodeK, t_lods = f_lods f, t_index = indexLOD, t_mesh = f_mesh f,
                   t_drawMode = f_drawMode f, t_host = Pending, t_then = Pending\<rparr>]\<rparr>
      in case (if indexLOD = 0
               then (if length (bufferLODs w1) \<noteq> 0 then loadBufferLOD 0 w1 else Inr w1)
               else Inr (w1\<lparr>nodeIndexLOD := None\<rparr>)) of
           Inl e \<Rightarrow> Inl e
         | Inr w2 \<Rightarrow>
             Inr (w2\<lparr>this_indexLOD := None,
                     nodePromiseLODs := push_promise (nodePromiseLODs w2) indexLOD promise\<rparr>))"

definition loadNodeAsync_then :: "nat \<Rightarrow> task \<Rightarrow> tnode \<Rightarrow> world \<Rightarrow> world" where
  "loadNodeAsync_then p t babylonMesh w =
     (let w1 =
        (if t_index t \<noteq> 0 then
           let previousNodeLOD = t_lods t ! (t_index t - 1) in
           case node_field w previousNodeLOD of
             Some tn \<Rightarrow>
               disposeUnusedMaterials
                 (w\<lparr>nodes := map_option (\<lambda>ns. ns[previousNodeLOD := None]) (nodes w),
                    events := DisposeNode p tn # events w\<rparr>)
           | None \<Rightarrow> w
         else w)
      in w1\<lparr>events := SetEnabledTrue p babylonMesh # events w1\<rparr>)"

definition loadNodeAsync :: "nat \<Rightarrow> int list option \<Rightarrow> world \<Rightarrow> error + world" where
  \<comment> \<open>lines 136-143: up to the first iteration's call of the loader\<close>
  "loadNodeAsync node extension w =
     (case extension of
        None \<Rightarrow> Inr w
      | Some ids \<Rightarrow>
          (case getLODs (maxLODsToLoad w) node
                  (map_option (\<lambda>ns. [0..<length ns]) (nodes w)) ids of
             Inl e \<Rightarrow> Inl e
           | Inr nodeLODs \<Rightarrow>
               if 0 < length nodeLODs
               then Inr (loadNodeAsync_begin 0
                      (w\<lparr>stack := \<lparr>f_kind = NodeK, f_lods = nodeLODs, f_index = 0,
                                     f_mesh = 0, f_drawMode = 0\<rparr> # stack w\<rparr>))
               else Inr w))"

subsection \<open>Levels of a material: \<^verbatim>\<open>_loadMaterialAsync\<close>\<close>

text \<open>
  The caller's \<^verbatim>\<open>assign\<close> is not part of the sources at hand.
\<close>

definition assign :: "mesh \<Rightarrow> bmat \<Rightarrow> world \<Rightarrow> world" where
  \<comment> \<open>Modelled from the spec: the \<^verbatim>\<open>assign\<close> callback that the loader passes to
      \<^verbatim>\<open>_loadMaterialAsync\<close> is missing. The spec calls it the visibility callback, which
      makes the constructed material the one the consumer mesh shows.\<close>
  "assign babylonMesh material' w =
     w\<lparr>meshMaterial := (meshMaterial w)(babylonMesh \<mapsto> material'),
       events := Assign babylonMesh material' # events w\<rparr>"

definition loadMaterialAsync_begin :: "nat \<Rightarrow> world \<Rightarrow> world" where
  \<comment> \<open>lines 207-211\<close>
  "loadMaterialAsync_begin indexLOD w =
     (let w1 = w\<lparr>this_indexLOD := Some indexLOD\<rparr> in
      if indexLOD \<noteq> 0 then w1\<lparr>materialIndexLOD := Some indexLOD\<rparr> else w1)"

definition loadMaterialAsync_assign :: "frame \<Rightarrow> bmat \<Rightarrow> world \<Rightarrow> world" where
  \<comment> \<open>lines 213-216, the callback the extension passes to the loader\<close>
  "loadMaterialAsync_assign f material' w =
     (if f_index f = 0 then assign (f_mesh f) material' w else w)"

definition loadMaterialAsync_end :: "frame \<Rightarrow> world \<Rightarrow> error + world" where
  \<comment> \<open>\<^verbatim>\<open>then\<close> of line 217 and lines 232-246\<close>
  "loadMaterialAsync_end f w =
     (let indexLOD = f_index f;
          promise = length (tasks w);
          w1 = w\<lparr>tasks := tasks w @
                 [\<lparr>t_kind = MaterialK, t_lods = f_lods f, t_index = indexLOD, t_mesh = f_mesh f,
                   t_drawMode = f_drawMode f, t_host = Pending, t_then = Pending\<rparr>]\<rparr>
      in case (if indexLOD = 0
               then (if length (bufferLODs w1) \<noteq> 0 then loadBufferLOD 0 w1 else Inr w1)
               else Inr (w1\<lparr>materialIndexLOD := None\<rparr>)) of
           Inl e \<Rightarrow> Inl e
         | Inr w2 \<Rightarrow>
             Inr (w2\<lparr>this_indexLOD := None,
                     materialPromiseLODs :=
                       push_promise (materialPromiseLODs w2) indexLOD promise\<rparr>))"

definition loadMaterialAsync_then :: "nat \<Rightarrow> task \<Rightarrow> bmat \<Rightarrow> world \<Rightarrow> error option \<times> world" where
  \<comment> \<open>lines 217-230; the first component is the exception that ends the continuation\<close>
  "loadMaterialAsync_then p t material' w =
     (if t_index t \<noteq> 0 then
        let w1 = assign (t_mesh t) material' w;
            previous = t_lods t ! (t_index t - 1)
        in case material_field w1 previous of
             None \<Rightarrow> (Some TypeError, w1)
           | Some previousDataLOD \<Rightarrow>
               (case map_of previousDataLOD (t_drawMode t) of
                  Some data \<Rightarrow>
                    (None,
                     w1\<lparr>materials := map_option
                          (\<lambda>ms. ms[previous :=
                             Some (filter (\<lambda>(drawMode, _). drawMode \<noteq> t_drawMode t)
                                     previousDataLOD)])
                          (materials w1),
                        events := DisposePrevMaterial p (babylonMaterial data) # events w1\<rparr>)
                | None \<Rightarrow> (None, w1))
      else (None, w))"

definition loadMaterialAsync ::
  "nat \<Rightarrow> int list option \<Rightarrow> mesh \<Rightarrow> nat \<Rightarrow> world \<Rightarrow> error + (bool \<times> world)" where
  \<comment> \<open>lines 192-204: up to the first iteration's call of the loader; the Boolean is
      \<open>False\<close> when the method returns \<^verbatim>\<open>null\<close>\<close>
  "loadMaterialAsync material extension babylonMesh babylonDrawMode w =
     (if truthy (this_indexLOD w) then Inr (False, w)
      else case extension of
             None \<Rightarrow> Inr (False, w)
           | Some ids \<Rightarrow>
               (case getLODs (maxLODsToLoad w) material
                       (map_option (\<lambda>ms. [0..<length ms]) (materials w)) ids of
                  Inl e \<Rightarrow> Inl e
                | Inr materialLODs \<Rightarrow>
                    if 0 < length materialLODs
                    then Inr (True, loadMaterialAsync_begin 0
                           (w\<lparr>stack := \<lparr>f_kind = MaterialK, f_lods = materialLODs, f_index = 0,
                               f_mesh = babylonMesh, f_drawMode = babylonDrawMode\<rparr> # stack w\<rparr>))
                    else Inr (True, w)))"

definition load_return :: "world \<Rightarrow> (error + world) option" where
  \<comment> \<open>the loader's load call of the running iteration returns: the rest of the body,
      then the next iteration up to its call of the loader, or the end of the loop\<close>
  "load_return w =
     (case stack w of
        [] \<Rightarrow> None
      | f # fs \<Rightarrow>
          Some (case (case f_kind f of NodeK \<Rightarrow> loadNodeAsync_end f w
                                 | MaterialK \<Rightarrow> loadMaterialAsync_end f w) of
                  Inl e \<Rightarrow> Inl e
                | Inr w1 \<Rightarrow>
                    if f_index f + 1 < length (f_lods f)
                    then let w2 = w1\<lparr>stack := f\<lparr>f_index := f_index f + 1\<rparr> # fs\<rparr> in
                         Inr (case f_kind f of
                                NodeK \<Rightarrow> loadNodeAsync_begin (f_index f + 1) w2
                              | MaterialK \<Rightarrow> loadMaterialAsync_begin (f_index f + 1) w2)
                    else Inr (w1\<lparr>stack := fs\<rparr>)))"

subsection \<open>\<^verbatim>\<open>onReady\<close>\<close>

fun onReady_buffers :: "nat list \<Rightarrow> world \<Rightarrow> error + world" where
  \<comment> \<open>lines 130-132, over the indices \<open>1, ..., length - 1\<close>\<close>
  "onReady_buffers [] w = Inr w"
| "onReady_buffers (indexLOD # rest) w =
     (case loadBufferLOD indexLOD w of
        Inl e \<Rightarrow> Inl e
      | Inr w' \<Rightarrow> onReady_buffers rest w')"

definition onReady :: "world \<Rightarrow> error + world" where
  \<comment> \<open>lines 89-133: both loops register \<^verbatim>\<open>Promise.all(...).then(...)\<close>, the third reads\<close>
  "onReady w =
     onReady_buffers [1..<length (bufferLODs w)]
       (w\<lparr>readies := readies w
            @ map (\<lambda>indexLOD. \<lparr>r_kind = NodeK, r_index = indexLOD,
                                r_all = js_get (nodePromiseLODs w) indexLOD, r_fired = False\<rparr>)
                [0..<length (nodePromiseLODs w)]
            @ map (\<lambda>indexLOD. \<lparr>r_kind = MaterialK, r_index = indexLOD,
                                r_all = js_get (materialPromiseLODs w) indexLOD, r_fired = False\<rparr>)
                [0..<length (materialPromiseLODs w)],
          readyCalled := True\<rparr>)"

definition resolve_signal :: "kind \<Rightarrow> nat \<Rightarrow> world \<Rightarrow> world" where
  \<comment> \<open>\<^verbatim>\<open>if (signals[indexLOD]) { signals[indexLOD].resolve(); }\<close>\<close>
  "resolve_signal k indexLOD w =
     (case signals k w (int indexLOD) of
        None \<Rightarrow> w
      | Some d \<Rightarrow>
          (case k of
             NodeK \<Rightarrow> w\<lparr>nodeSignalLODs := (nodeSignalLODs w)(int indexLOD \<mapsto> True),
                        events := ResolveSignal k indexLOD # events w\<rparr>
           | MaterialK \<Rightarrow> w\<lparr>materialSignalLODs := (materialSignalLODs w)(int indexLOD \<mapsto> True),
                            events := ResolveSignal k indexLOD # events w\<rparr>))"

definition onReady_then :: "kind \<Rightarrow> nat \<Rightarrow> world \<Rightarrow> world" where
  \<comment> \<open>lines 91-105 for nodes and 111-125 for materials\<close>
  "onReady_then k indexLOD w =
     (let w1 = w\<lparr>events := LODsLoaded k indexLOD # events w\<rparr>;
          promiseLODs = (case k of NodeK \<Rightarrow> nodePromiseLODs w1 | MaterialK \<Rightarrow> materialPromiseLODs w1)
      in if int indexLOD \<noteq> int (length promiseLODs) - 1
         then resolve_signal k indexLOD w1
         else w1)"

definition all_fulfilled :: "world \<Rightarrow> nat list \<Rightarrow> bool" where
  \<comment> \<open>the promise of \<^verbatim>\<open>Promise.all\<close> is fulfilled when each of its promises is\<close>
  "all_fulfilled w ps = list_all (\<lambda>p. p < length (tasks w) \<and> t_then (tasks w ! p) = Fulfilled ()) ps"

definition ready_run :: "nat \<Rightarrow> world \<Rightarrow> world option" where
  "ready_run r w =
     (if r < length (readies w) \<and> \<not> r_fired (readies w ! r) then
        (case r_all (readies w ! r) of
           None \<Rightarrow> None
         | Some ps \<Rightarrow>
             if all_fulfilled w ps
             then Some (onReady_then (r_kind (readies w ! r)) (r_index (readies w ! r))
                          (w\<lparr>readies := (readies w)[r := (readies w ! r)\<lparr>r_fired := True\<rparr>]\<rparr>))
             else None)
      else None)"

definition then_run :: "nat \<Rightarrow> world \<Rightarrow> world option" where
  \<comment> \<open>the continuation of a level runs once, after the loader's promise is fulfilled\<close>
  "then_run p w =
     (if p < length (tasks w) \<and> t_then (tasks w ! p) = Pending then
        let t = tasks w ! p in
        case t_host t of
          Fulfilled v \<Rightarrow>
            (case t_kind t of
               NodeK \<Rightarrow>
                 let w1 = loadNodeAsync_then p t v w in
                 Some (w1\<lparr>tasks := (tasks w1)[p := t\<lparr>t_then := Fulfilled ()\<rparr>]\<rparr>)
             | MaterialK \<Rightarrow>
                 let (e, w1) = loadMaterialAsync_then p t v w in
                 Some (w1\<lparr>tasks := (tasks w1)[p := t\<lparr>t_then :=
                         (case e of None \<Rightarrow> Fulfilled () | Some _ \<Rightarrow> Rejected)\<rparr>]\<rparr>))
        | _ \<Rightarrow> None
      else None)"

definition load_settled :: "nat \<Rightarrow> nat option \<Rightarrow> world \<Rightarrow> world option" where
  \<comment> \<open>the loader settles the promise of a level: fulfilled with an object, or rejected\<close>
  "load_settled p outcome w =
     (if p < length (tasks w) \<and> t_host (tasks w ! p) = Pending
      then Some (w\<lparr>tasks := (tasks w)[p := (tasks w ! p)\<lparr>t_host := settle Pending outcome\<rparr>],
                   events := Settle p (outcome \<noteq> None) # events w\<rparr>)
      else None)"

subsection \<open>Executions\<close>

text \<open>
  The extension runs on one thread. The loader calls its methods; inside a loop of
  \<^verbatim>\<open>loadNodeAsync\<close> or \<^verbatim>\<open>_loadMaterialAsync\<close> the loader's own load runs and may call any
  method again before it returns, and it may run the callbacks it was given. A
  continuation of a promise runs only when no call is in progress, that is when
  \<open>stack\<close> is empty. The loader calls \<^verbatim>\<open>onReady\<close> once. The development follows the
  extension until \<^verbatim>\<open>dispose\<close> is called.
\<close>

datatype label =
    CallLoadNode nat "int list option"
      \<comment> \<open>\<^verbatim>\<open>loadNodeAsync\<close> for a node of \<^verbatim>\<open>gltf.nodes\<close> and its \<^verbatim>\<open>MSFT_lod\<close> ids, if any\<close>
  | CallLoadMaterial nat "int list option" mesh nat
      \<comment> \<open>\<^verbatim>\<open>_loadMaterialAsync\<close> for a material, its ids, the mesh and the draw mode\<close>
  | ReturnLoad
      \<comment> \<open>the loader's load of the running iteration returns its promise\<close>
  | HostAssignNode tnode
      \<comment> \<open>the loader calls the \<^verbatim>\<open>assign\<close> of line 153\<close>
  | HostAssignMaterial bmat
      \<comment> \<open>the loader calls the callback of lines 213-216\<close>
  | HostWriteNode nat "tnode option"
      \<comment> \<open>the loader writes \<^verbatim>\<open>_babylonTransformNode\<close> of a node\<close>
  | HostWriteMaterial nat "(nat \<times> matdata) list option"
      \<comment> \<open>the loader writes \<^verbatim>\<open>_data\<close> of a material\<close>
  | CallLoadUri
  | CallLoadBuffer "string option" int int
  | CallOnReady
  | SettleLoad nat "nat option"
      \<comment> \<open>the loader's promise of a level is fulfilled with an object, or rejected\<close>
  | RunThen nat
  | RunReady nat
  | RunUri nat
  | SettleRead nat "ArrayBufferView option"
      \<comment> \<open>\<^verbatim>\<open>readAsync\<close> is fulfilled with a view, or rejected\<close>
  | RunBuffer nat

datatype fault =
    Disabled      \<comment> \<open>the step cannot happen in this state\<close>
  | Throw error   \<comment> \<open>the call throws\<close>

definition call :: "error + world \<Rightarrow> fault + world" where
  "call r = (case r of Inl e \<Rightarrow> Inl (Throw e) | Inr w \<Rightarrow> Inr w)"

definition async :: "world \<Rightarrow> world option \<Rightarrow> fault + world" where
  "async w r =
     (if stack w = [] then (case r of None \<Rightarrow> Inl Disabled | Some w' \<Rightarrow> Inr w')
      else Inl Disabled)"

definition read_settle :: "nat \<Rightarrow> ArrayBufferView option \<Rightarrow> world \<Rightarrow> world option" where
  "read_settle r outcome w =
     (if r < length (reads w) \<and> \<not> rd_settled (reads w ! r)
      then Some (readAsync_settled r outcome w) else None)"

fun step :: "label \<Rightarrow> world \<Rightarrow> fault + world" where
  "step (CallLoadNode node extension) w =
     (if node < length (case nodes w of None \<Rightarrow> [] | Some ns \<Rightarrow> ns)
      then call (loadNodeAsync node extension w) else Inl Disabled)"
| "step (CallLoadMaterial material extension babylonMesh babylonDrawMode) w =
     (if material < length (case materials w of None \<Rightarrow> [] | Some ms \<Rightarrow> ms)
      then call (map_sum id snd (loadMaterialAsync material extension babylonMesh babylonDrawMode w))
      else Inl Disabled)"
| "step ReturnLoad w =
     (case load_return w of None \<Rightarrow> Inl Disabled | Some r \<Rightarrow> call r)"
| "step (HostAssignNode tn) w =
     (case stack w of
        [] \<Rightarrow> Inl Disabled
      | f # fs \<Rightarrow>
          if f_kind f = NodeK then Inr (w\<lparr>events := SetEnabledFalse tn # events w\<rparr>)
          else Inl Disabled)"
| "step (HostAssignMaterial material') w =
     (case stack w of
        [] \<Rightarrow> Inl Disabled
      | f # fs \<Rightarrow>
          if f_kind f = MaterialK then Inr (loadMaterialAsync_assign f material' w)
          else Inl Disabled)"
| "step (HostWriteNode node tn) w =
     (case nodes w of
        None \<Rightarrow> Inl Disabled
      | Some ns \<Rightarrow>
          if node < length ns then Inr (w\<lparr>nodes := Some (ns[node := tn])\<rparr>) else Inl Disabled)"
| "step (HostWriteMaterial material data) w =
     (case materials w of
        None \<Rightarrow> Inl Disabled
      | Some ms \<Rightarrow>
          if material < length ms then Inr (w\<lparr>materials := Some (ms[material := data])\<rparr>)
          else Inl Disabled)"
| "step CallLoadUri w = Inr (snd (loadUriAsync w))"
| "step (CallLoadBuffer uri offset len) w =
     call (map_sum id snd (loadBufferAsync uri offset len w))"
| "step CallOnReady w = (if readyCalled w then Inl Disabled else call (onReady w))"
| "step (SettleLoad p outcome) w = async w (load_settled p outcome w)"
| "step (RunThen p) w = async w (then_run p w)"
| "step (RunReady r) w = async w (ready_run r w)"
| "step (RunUri u) w = async w (urireq_run u w)"
| "step (SettleRead r outcome) w = async w (read_settle r outcome w)"
| "step (RunBuffer b) w = async w (bufreq_run b w)"

fun exec :: "label list \<Rightarrow> world \<Rightarrow> fault + world" where
  "exec [] w = Inr w"
| "exec (l # ls) w = (case step l w of Inl e \<Rightarrow> Inl e | Inr w' \<Rightarrow> exec ls w')"

definition init :: "int \<Rightarrow> bool \<Rightarrow> byte list option \<Rightarrow> nat option \<Rightarrow> nat option \<Rightarrow> world" where
  \<comment> \<open>the extension as its constructor leaves it, for a value of \<^verbatim>\<open>maxLODsToLoad\<close>, of
      \<^verbatim>\<open>useRangeRequests\<close>, a binary chunk and the lengths of \<^verbatim>\<open>gltf.nodes\<close> and
      \<^verbatim>\<open>gltf.materials\<close>\<close>
  "init maxLODs rangeRequests chunk nodeCount materialCount =
     \<lparr>maxLODsToLoad = maxLODs,
      nodeIndexLOD = None, nodeSignalLODs = (\<lambda>_. None), nodePromiseLODs = [],
      materialIndexLOD = None, materialSignalLODs = (\<lambda>_. None), materialPromiseLODs = [],
      this_indexLOD = None, bufferLODs = [],
      useRangeRequests = rangeRequests, bin = chunk,
      nodes = map_option (\<lambda>n. replicate n None) nodeCount,
      materials = map_option (\<lambda>n. replicate n None) materialCount,
      meshMaterial = (\<lambda>_. None),
      stack = [], tasks = [], readies = [], uris = [], bufreqs = [], reads = [],
      readyCalled = False, events = []\<rparr>"

definition reachable :: "world \<Rightarrow> bool" where
  "reachable w =
     (\<exists>maxLODs rangeRequests chunk nodeCount materialCount ls.
        exec ls (init maxLODs rangeRequests chunk nodeCount materialCount) = Inr w)"

subsection \<open>Notions used in the statements\<close>

definition widen :: "bufferLOD \<Rightarrow> int \<times> int \<Rightarrow> bufferLOD" where
  \<comment> \<open>the bucket after a request \<open>(byteOffset, byteLength)\<close> has been merged into it\<close>
  "widen b r = b\<lparr>start := min (start b) (fst r), end' := max (end' b) (fst r + snd r - 1)\<rparr>"

definition mkreq :: "nat \<Rightarrow> int \<times> int \<Rightarrow> bufreq" where
  \<comment> \<open>the pending promise of a request \<open>(byteOffset, byteLength)\<close> recorded for a level\<close>
  "mkreq L r = \<lparr>b_level = L, b_offset = fst r, b_length = snd r, b_result = Pending\<rparr>"

definition read_of :: "nat \<Rightarrow> bufferLOD \<Rightarrow> read" where
  \<comment> \<open>the read that \<^verbatim>\<open>_loadBufferLOD\<close> issues for a bucket\<close>
  "read_of i b = \<lparr>rd_level = i, rd_start = start b, rd_length = end' b - start b + 1, rd_settled = False\<rparr>"

definition read_event :: "nat \<Rightarrow> bufferLOD \<Rightarrow> event" where
  "read_event i b = ReadAsync i (start b) (end' b - start b + 1)"

definition new_task :: "frame \<Rightarrow> task" where
  "new_task f = \<lparr>t_kind = f_kind f, t_lods = f_lods f, t_index = f_index f, t_mesh = f_mesh f,
       t_drawMode = f_drawMode f, t_host = Pending, t_then = Pending\<rparr>"

definition promiseLODs :: "kind \<Rightarrow> world \<Rightarrow> nat list option list" where
  "promiseLODs k w = (case k of NodeK \<Rightarrow> nodePromiseLODs w | MaterialK \<Rightarrow> materialPromiseLODs w)"

definition keeps_loads :: "world \<Rightarrow> world \<Rightarrow> bool" where
  "keeps_loads w w' = (tasks w' = tasks w \<and> (\<forall>k. promiseLODs k w' = promiseLODs k w))"

definition keeps_marks :: "world \<Rightarrow> world \<Rightarrow> bool" where
  "keeps_marks w w' = (nodeIndexLOD w' = nodeIndexLOD w \<and> materialIndexLOD w' = materialIndexLOD w)"

definition keeps_ready :: "world \<Rightarrow> world \<Rightarrow> bool" where
  "keeps_ready w w' = (readies w' = readies w \<and> readyCalled w' = readyCalled w)"

definition keeps_signals :: "world \<Rightarrow> world \<Rightarrow> bool" where
  "keeps_signals w w' = (\<forall>k. signals k w' = signals k w)"

definition ready_of :: "kind \<Rightarrow> nat list option list \<Rightarrow> nat \<Rightarrow> ready" where
  "ready_of k a indexLOD = \<lparr>r_kind = k, r_index = indexLOD, r_all = js_get a indexLOD, r_fired = False\<rparr>"

fun hist :: "(event \<Rightarrow> event list \<Rightarrow> bool) \<Rightarrow> event list \<Rightarrow> bool" where
  "hist P [] = True"
| "hist P (e # pre) = (P e pre \<and> hist P pre)"

definition uri_issue :: "event \<Rightarrow> event list \<Rightarrow> bool" where
  "uri_issue e pre = (case e of LoadUri u k j \<Rightarrow> 0 \<le> j \<and> ResolveSignal k (nat j) \<in> set pre | _ \<Rightarrow> True)"

definition uri_inv :: "world \<Rightarrow> bool" where
  "uri_inv w =
     (nodeIndexLOD w \<noteq> Some 0 \<and> materialIndexLOD w \<noteq> Some 0
      \<and> (\<forall>k j. signals k w j = Some True \<longrightarrow> 0 \<le> j \<and> ResolveSignal k (nat j) \<in> set (events w))
      \<and> (\<forall>u < length (uris w). 0 \<le> u_prev (uris w ! u))
      \<and> (\<forall>u k j. LoadUri u k j \<in> set (events w) \<longrightarrow>
            u < length (uris w) \<and> u_kind (uris w ! u) = k \<and> u_prev (uris w ! u) = j)
      \<and> hist uri_issue (events w))"

definition node_swap :: "event \<Rightarrow> event list \<Rightarrow> bool" where
  "node_swap e pre =
     (case e of
        DisposeNode p tn \<Rightarrow> Settle p True \<in> set pre \<and> (\<forall>v. SetEnabledTrue p v \<notin> set pre)
      | _ \<Rightarrow> True)"

definition load_inv :: "world \<Rightarrow> bool" where
  "load_inv w =
     ((\<forall>p < length (tasks w). \<forall>v. t_host (tasks w ! p) = Fulfilled v \<longrightarrow> Settle p True \<in> set (events w))
      \<and> (\<forall>p < length (tasks w). t_then (tasks w ! p) \<noteq> Pending \<longrightarrow> (\<exists>v. t_host (tasks w ! p) = Fulfilled v))
      \<and> (\<forall>p tn. DisposeNode p tn \<in> set (events w) \<longrightarrow>
            p < length (tasks w) \<and> t_kind (tasks w ! p) = NodeK \<and> t_index (tasks w ! p) \<noteq> 0
            \<and> (\<exists>v. SetEnabledTrue p v \<in> set (events w)))
      \<and> (\<forall>p v. SetEnabledTrue p v \<in> set (events w) \<longrightarrow>
            p < length (tasks w) \<and> t_then (tasks w ! p) \<noteq> Pending \<and> t_host (tasks w ! p) = Fulfilled v)
      \<and> hist node_swap (events w))"

definition ready_fire :: "ready list \<Rightarrow> event \<Rightarrow> event list \<Rightarrow> bool" where
  "ready_fire rs e pre =
     (case e of
        LODsLoaded k i \<Rightarrow>
          (\<forall>r < length rs. r_kind (rs ! r) = k \<and> r_index (rs ! r) = i \<longrightarrow>
             (\<exists>ps. r_all (rs ! r) = Some ps \<and> (\<forall>p \<in> set ps. Settle p True \<in> set pre)))
      | _ \<Rightarrow> True)"

definition ready_key :: "ready \<Rightarrow> kind \<times> nat" where
  "ready_key r = (r_kind r, r_index r)"

definition ready_inv :: "world \<Rightarrow> bool" where
  "ready_inv w =
     ((\<not> readyCalled w \<longrightarrow> readies w = [])
      \<and> distinct (map ready_key (readies w))
      \<and> (\<forall>k i. count_list (events w) (LODsLoaded k i)
            = (if \<exists>r < length (readies w). ready_key (readies w ! r) = (k, i) \<and> r_fired (readies w ! r)
               then 1 else 0))
      \<and> (\<forall>r < length (readies w). r_fired (readies w ! r) \<longrightarrow>
            (\<exists>ps. r_all (readies w ! r) = Some ps \<and> all_fulfilled w ps))
      \<and> (\<forall>r < length (readies w). \<forall>ps. r_all (readies w ! r) = Some ps \<longrightarrow>
            (\<forall>p \<in> set ps. p < length (tasks w) \<and> t_kind (tasks w ! p) = r_kind (readies w ! r)
                \<and> t_index (tasks w ! p) = r_index (readies w ! r)))
      \<and> (\<forall>k i ps. js_get (promiseLODs k w) i = Some ps \<longrightarrow>
            (\<forall>p \<in> set ps. p < length (tasks w) \<and> t_kind (tasks w ! p) = k \<and> t_index (tasks w ! p) = i))
      \<and> hist (ready_fire (readies w)) (events w))"

definition material_of :: "mesh \<Rightarrow> world \<Rightarrow> bmat option" where
  "material_of m w = meshMaterial w m"

definition shared_material :: "label list" where
  "shared_material =
     [CallLoadMaterial 1 (Some [0]) 5 4,
      HostWriteMaterial 0 (Some [(4, \<lparr>babylonMaterial = 100, babylonMeshes = [5]\<rparr>)]),
      HostAssignMaterial 100, ReturnLoad,
      HostWriteMaterial 1 (Some [(4, \<lparr>babylonMaterial = 101, babylonMeshes = [5]\<rparr>)]),
      HostAssignMaterial 101, ReturnLoad,
      CallLoadMaterial 1 (Some [0]) 6 4,
      HostWriteMaterial 0 (Some [(4, \<lparr>babylonMaterial = 100, babylonMeshes = [5, 6]\<rparr>)]),
      HostAssignMaterial 100, ReturnLoad,
      HostWriteMaterial 1 (Some [(4, \<lparr>babylonMaterial = 101, babylonMeshes = [5, 6]\<rparr>)]),
      HostAssignMaterial 101, ReturnLoad,
      CallOnReady,
      SettleLoad 0 (Some 100), SettleLoad 2 (Some 100), SettleLoad 1 (Some 101),
      SettleLoad 3 (Some 101), RunThen 0, RunThen 2]"

subsection \<open>Properties of \<^verbatim>\<open>_getLODs\<close>\<close>

lemma getLODs_loop_valid:
  assumes "\<forall>i \<in> set ids. 0 \<le> i \<and> nat i < length xs"
    and "n \<le> length ids" and "int (length props) < C"
  shows "getLODs_loop C (Some xs) ids n props =
     (if C \<le> int (length props + n)
      then Inr (props @ map (\<lambda>i. xs ! nat i) (take (nat C - length props) (rev (take n ids))), True)
      else Inr (props @ map (\<lambda>i. xs ! nat i) (rev (take n ids)), False))"
  using assms
proof (induction n arbitrary: props)
  case 0
  then show ?case by simp
next
  case (Suc n)
  have ok: "0 \<le> ids ! n \<and> nat (ids ! n) < length xs"
    using Suc.prems by (simp add: Ball_def)
  have tk: "take (Suc n) ids = take n ids @ [ids ! n]"
    using Suc.prems by (simp add: take_Suc_conv_app_nth)
  show ?case
  proof (cases "int (length props) + 1 = C")
    case True
    then have "nat C - length props = Suc 0" by linarith
    then show ?thesis using True ok tk by (simp add: ArrayItem_Get_def)
  next
    case False
    then have lt: "int (length (props @ [xs ! nat (ids ! n)])) < C" using Suc.prems by simp
    have le: "n \<le> length ids" using Suc.prems by simp
    have "nat C - length props = Suc (nat C - Suc (length props))" using lt by simp
    then show ?thesis using ok tk False Suc.IH[OF Suc.prems(1) le lt]
      by (simp add: ArrayItem_Get_def)
  qed
qed

lemma getLODs_valid:
  assumes "1 \<le> C" and "\<forall>i \<in> set ids. 0 \<le> i \<and> nat i < length xs"
  shows "getLODs C p (Some xs) ids = Inr (take (nat C) (map (\<lambda>i. xs ! nat i) (rev ids) @ [p]))"
  using assms getLODs_loop_valid[OF assms(2), of "length ids" "[]" C]
  by (auto simp: getLODs_def take_map)

text \<open>
  Claim C1, as the spec states it: with \<open>N\<close> declared ids and a cap \<open>C \<ge> 1\<close> the list of
  levels has \<open>min (N + 1) C\<close> entries, coarsest first, and its last entry is always the
  original variant, also when the cap truncates the list. The code leaves the loop by
  \<^verbatim>\<open>return properties\<close> as soon as the cap is reached, so with one declared id and a cap of
  \<open>1\<close> the list is the declared variant alone and the original is not in it.
\<close>

theorem getLODs_last_counterexample:
  "getLODs 1 (12::nat) (Some [10, 11, 12]) [0] = Inr [10] \<and> last [10::nat] \<noteq> 12"
  by (simp add: getLODs_def ArrayItem_Get_def)

text \<open>
  Claim C1, amended: with \<open>N\<close> declared ids that all resolve and a cap \<open>C \<ge> 1\<close>,
  \<^verbatim>\<open>_getLODs\<close> returns the first \<open>min (N + 1) C\<close> entries of the declared variants in
  reverse order followed by the original. The original is the last entry when \<open>N < C\<close>;
  when \<open>C \<le> N\<close> the list is the first \<open>C\<close> declared variants in reverse order, without the
  original.
\<close>

theorem getLODs_capped:
  assumes "1 \<le> C" and "\<forall>i \<in> set ids. 0 \<le> i \<and> nat i < length xs"
  shows "\<exists>r. getLODs C p (Some xs) ids = Inr r
           \<and> r = take (nat C) (map (\<lambda>i. xs ! nat i) (rev ids) @ [p])
           \<and> length r = min (length ids + 1) (nat C)
           \<and> (int (length ids) < C \<longrightarrow> r = map (\<lambda>i. xs ! nat i) (rev ids) @ [p] \<and> last r = p)
           \<and> (C \<le> int (length ids) \<longrightarrow> r = map (\<lambda>i. xs ! nat i) (take (nat C) (rev ids)))"
proof -
  let ?r = "take (nat C) (map (\<lambda>i. xs ! nat i) (rev ids) @ [p])"
  have "getLODs C p (Some xs) ids = Inr ?r" by (rule getLODs_valid[OF assms])
  moreover have "length ?r = min (length ids + 1) (nat C)" by simp
  moreover have "int (length ids) < C \<Longrightarrow> ?r = map (\<lambda>i. xs ! nat i) (rev ids) @ [p]" by simp
  moreover have "C \<le> int (length ids) \<Longrightarrow> ?r = map (\<lambda>i. xs ! nat i) (take (nat C) (rev ids))"
    by (simp add: take_map)
  ultimately show ?thesis by simp
qed

theorem getLODs_capped_witness:
  "\<exists>r. getLODs 2 (12::nat) (Some [10, 11, 12]) [0, 1] = Inr r \<and> r = [11, 10] \<and> length r = 2"
  using getLODs_capped[of 2 "[0, 1]" "[10, 11, 12::nat]" 12] by simp

subsection \<open>Byte ranges\<close>

lemma js_get_set_same [simp]: "js_get (js_set xs i v) i = Some v"
  by (simp add: js_get_def js_set_def nth_append)

lemma js_get_set_other [simp]: "j \<noteq> i \<Longrightarrow> js_get (js_set xs i v) j = js_get xs j"
  by (auto simp: js_get_def js_set_def nth_append nth_Cons')

lemma js_set_set [simp]: "js_set (js_set xs i a) i b = js_set xs i b"
proof (cases "i < length xs")
  case True then show ?thesis by (simp add: js_set_def)
next
  case False
  have "(xs @ replicate (i - length xs) None @ [Some a])[i := Some b]
        = xs @ replicate (i - length xs) None @ [Some b]"
    using False by (simp add: list_update_append)
  then show ?thesis using False by (simp add: js_set_def)
qed

lemma loadBufferAsync_range:
  assumes "useRangeRequests w" "\<not> truthy_string uri" "bin w = Some chunk"
  shows "loadBufferAsync uri off len w =
     Inr (Some (length (bufreqs w)),
          w\<lparr>bufferLODs := js_set (bufferLODs w) (or_zero (this_indexLOD w))
               (case js_get (bufferLODs w) (or_zero (this_indexLOD w)) of
                  Some b \<Rightarrow> widen b (off, len)
                | None \<Rightarrow> \<lparr>start = off, end' = off + len - 1, loaded = Pending\<rparr>),
            bufreqs := bufreqs w @ [mkreq (or_zero (this_indexLOD w)) (off, len)]\<rparr>)"
  using assms by (simp add: loadBufferAsync_def Let_def widen_def mkreq_def split: option.splits)

lemma record_more:
  assumes "useRangeRequests w" "\<not> truthy_string uri" "bin w = Some chunk"
    and "js_get (bufferLODs w) (or_zero (this_indexLOD w)) = Some b"
  shows "exec (map (\<lambda>(off, len). CallLoadBuffer uri off len) reqs) w =
     Inr (w\<lparr>bufferLODs := js_set (bufferLODs w) (or_zero (this_indexLOD w)) (fold (\<lambda>r b. widen b r) reqs b),
            bufreqs := bufreqs w @ map (mkreq (or_zero (this_indexLOD w))) reqs\<rparr>)"
  using assms
proof (induction reqs arbitrary: w b)
  case Nil
  have "js_set (bufferLODs w) (or_zero (this_indexLOD w)) b = bufferLODs w"
    using Nil(4) by (auto simp: js_get_def js_set_def split: if_splits) (metis list_update_id)
  then show ?case by simp
next
  case (Cons r reqs)
  obtain off len where r: "r = (off, len)" by (cases r)
  let ?w' = "w\<lparr>bufferLODs := js_set (bufferLODs w) (or_zero (this_indexLOD w)) (widen b (off, len)),
            bufreqs := bufreqs w @ [mkreq (or_zero (this_indexLOD w)) (off, len)]\<rparr>"
  have st: "step (CallLoadBuffer uri off len) w = Inr ?w'"
    using loadBufferAsync_range[OF Cons.prems(1-3), of off len] Cons.prems(4)
    by (simp add: call_def)
  have lv: "or_zero (this_indexLOD ?w') = or_zero (this_indexLOD w)" by (simp add:)
  have "exec (map (\<lambda>(off, len). CallLoadBuffer uri off len) reqs) ?w' =
     Inr (?w'\<lparr>bufferLODs := js_set (bufferLODs ?w') (or_zero (this_indexLOD ?w')) (fold (\<lambda>r b. widen b r) reqs (widen b (off, len))),
            bufreqs := bufreqs ?w' @ map (mkreq (or_zero (this_indexLOD ?w'))) reqs\<rparr>)"
    by (rule Cons.IH) (use Cons.prems lv in simp_all)
  then show ?case using st r lv by simp
qed

lemma fold_widen_start: "start (fold (\<lambda>r b. widen b r) reqs b) = Min (insert (start b) (fst ` set reqs))"
proof (induction reqs arbitrary: b)
  case Nil then show ?case by simp
next
  case (Cons r reqs)
  have "Min (insert (start b) (fst ` set (r # reqs))) = Min (insert (min (start b) (fst r)) (fst ` set reqs))"
    by (cases "reqs = []") (simp_all add: min.assoc insert_commute)
  then show ?case using Cons.IH[of "widen b r"] by (simp add: widen_def)
qed

lemma fold_widen_end: "end' (fold (\<lambda>r b. widen b r) reqs b) = Max (insert (end' b) ((\<lambda>r. fst r + snd r - 1) ` set reqs))"
proof (induction reqs arbitrary: b)
  case Nil then show ?case by simp
next
  case (Cons r reqs)
  have "Max (insert (end' b) ((\<lambda>r. fst r + snd r - 1) ` set (r # reqs))) = Max (insert (max (end' b) (fst r + snd r - 1)) ((\<lambda>r. fst r + snd r - 1) ` set reqs))"
    by (cases "reqs = []") (simp_all add: max.assoc insert_commute)
  then show ?case using Cons.IH[of "widen b r"] by (simp add: widen_def)
qed

lemma fold_widen_loaded: "loaded (fold (\<lambda>r b. widen b r) reqs b) = loaded b"
  by (induction reqs arbitrary: b) (simp_all add: widen_def)


lemma take_drop_take: "k + m \<le> n \<Longrightarrow> take m (drop k (take n xs)) = take m (drop k xs)"
  by (simp add: drop_take min_def)

lemma slice_of_view:
  assumes "0 \<le> byteOffset data" "byteLength data = n"
    and "byteOffset data + byteLength data \<le> int (length (buffer data))"
    and "lo \<le> off" "0 \<le> len" "off + len - 1 \<le> lo + n - 1"
  shows "\<exists>v. Uint8Array (buffer data) (byteOffset data + off - lo) len = Inr v
            \<and> view_bytes v = take (nat len) (drop (nat (off - lo)) (view_bytes data))"
proof -
  let ?v = "\<lparr>buffer = buffer data, byteOffset = byteOffset data + off - lo, byteLength = len\<rparr>"
  have U: "Uint8Array (buffer data) (byteOffset data + off - lo) len = Inr ?v"
    using assms by (simp add: Uint8Array_def)
  have "view_bytes ?v = take (nat len) (drop (nat (off - lo)) (drop (nat (byteOffset data)) (buffer data)))"
    using assms by (simp add: view_bytes_def nat_add_distrib[symmetric] add.commute diff_add_eq algebra_simps)
  also have "\<dots> = take (nat len) (drop (nat (off - lo)) (take (nat n) (drop (nat (byteOffset data)) (buffer data))))"
    using assms by (subst take_drop_take) (simp_all add: nat_add_distrib[symmetric] nat_le_eq_zle)
  also have "\<dots> = take (nat len) (drop (nat (off - lo)) (view_bytes data))"
    using assms by (simp add: view_bytes_def)
  finally show ?thesis using U by blast
qed

lemma loadBufferAsync_first:
  assumes "useRangeRequests w" "\<not> truthy_string uri" "bin w = Some chunk"
    and "js_get (bufferLODs w) (or_zero (this_indexLOD w)) = None"
  shows "\<exists>w'. loadBufferAsync uri off len w = Inr (Some (length (bufreqs w)), w')
     \<and> js_get (bufferLODs w') (or_zero (this_indexLOD w))
         = Some \<lparr>start = off, end' = off + len - 1, loaded = Pending\<rparr>"
  using loadBufferAsync_range[OF assms(1-3), of off len] assms(4) by simp

lemma loadBufferAsync_later:
  assumes "useRangeRequests w" "\<not> truthy_string uri" "bin w = Some chunk"
    and "js_get (bufferLODs w) (or_zero (this_indexLOD w)) = Some b"
  shows "\<exists>w'. loadBufferAsync uri off len w = Inr (Some (length (bufreqs w)), w')
     \<and> js_get (bufferLODs w') (or_zero (this_indexLOD w))
         = Some (b\<lparr>start := min (start b) off, end' := max (end' b) (off + len - 1)\<rparr>)"
  using loadBufferAsync_range[OF assms(1-3), of off len] assms(4) by (simp add: widen_def)

text \<open>
  Claim C5: the requests \<open>(byteOffset, byteLength)\<close> recorded for a level before its read
  is issued. The first one creates the bucket \<open>[offset, offset + length - 1]\<close>; each
  later one widens the bucket to the minimum of the starts and the maximum of the ends;
  all of them wait for the one \<^verbatim>\<open>loaded\<close> promise of the bucket of the level, and
  \<^verbatim>\<open>_loadBufferLOD\<close> issues one read of the extent of the bucket; once that read is
  fulfilled with a view of as many bytes, the continuation of each request yields the
  \<open>length\<close> bytes of that view that start at \<open>offset\<close> minus the start of the bucket.
\<close>

theorem ranges_coalesced:
  fixes reqs :: "(int \<times> int) list"
  assumes env: "useRangeRequests w" "\<not> truthy_string uri" "bin w = Some chunk"
    and fresh: "js_get (bufferLODs w) (or_zero (this_indexLOD w)) = None"
    and ne: "reqs \<noteq> []"
    and rng: "\<forall>r \<in> set reqs. 0 \<le> snd r"
  shows "\<exists>L lo hi w1 w2.
      L = or_zero (this_indexLOD w)
    \<and> lo = Min (fst ` set reqs) \<and> hi = Max ((\<lambda>r. fst r + snd r - 1) ` set reqs)
    \<and> (\<forall>off len. \<exists>w'. loadBufferAsync uri off len w = Inr (Some (length (bufreqs w)), w')
           \<and> js_get (bufferLODs w') L = Some \<lparr>start = off, end' = off + len - 1, loaded = Pending\<rparr>)
    \<and> (\<forall>w0 b off len. useRangeRequests w0 \<and> bin w0 = Some chunk
             \<and> js_get (bufferLODs w0) (or_zero (this_indexLOD w0)) = Some b \<longrightarrow>
           (\<exists>w'. loadBufferAsync uri off len w0 = Inr (Some (length (bufreqs w0)), w')
              \<and> js_get (bufferLODs w') (or_zero (this_indexLOD w0))
                  = Some (b\<lparr>start := min (start b) off, end' := max (end' b) (off + len - 1)\<rparr>)))
    \<and> exec (map (\<lambda>(off, len). CallLoadBuffer uri off len) reqs) w = Inr w1
    \<and> js_get (bufferLODs w1) L = Some \<lparr>start = lo, end' = hi, loaded = Pending\<rparr>
    \<and> bufreqs w1 = bufreqs w @ map (mkreq L) reqs \<and> reads w1 = reads w
    \<and> loadBufferLOD L w1 = Inr w2
    \<and> reads w2 = reads w1 @ [\<lparr>rd_level = L, rd_start = lo, rd_length = hi - lo + 1, rd_settled = False\<rparr>]
    \<and> (\<forall>data k. k < length reqs \<and> 0 \<le> byteOffset data \<and> byteLength data = hi - lo + 1
           \<and> byteOffset data + byteLength data \<le> int (length (buffer data)) \<longrightarrow>
         (\<exists>w4 v. bufreq_run (length (bufreqs w) + k)
                    (readAsync_settled (length (reads w1)) (Some data) w2) = Some w4
            \<and> b_result (bufreqs w4 ! (length (bufreqs w) + k)) = Fulfilled v
            \<and> byteLength v = snd (reqs ! k)
            \<and> view_bytes v = take (nat (snd (reqs ! k))) (drop (nat (fst (reqs ! k) - lo)) (view_bytes data))))"
proof -
  let ?L = "or_zero (this_indexLOD w)"
  let ?lo = "Min (fst ` set reqs)" and ?hi = "Max ((\<lambda>r. fst r + snd r - 1) ` set reqs)"
  obtain r0 rest where reqs: "reqs = r0 # rest" using ne by (cases reqs) auto
  obtain off0 len0 where r0: "r0 = (off0, len0)" by (cases r0)
  let ?b0 = "\<lparr>start = off0, end' = off0 + len0 - 1, loaded = Pending\<rparr>"
  let ?w0 = "w\<lparr>bufferLODs := js_set (bufferLODs w) ?L ?b0,
              bufreqs := bufreqs w @ [mkreq ?L (off0, len0)]\<rparr>"
  have st0: "step (CallLoadBuffer uri off0 len0) w = Inr ?w0"
    using loadBufferAsync_range[OF env, of off0 len0] fresh
    by (simp add: call_def)
  have lv0: "or_zero (this_indexLOD ?w0) = ?L" by simp
  let ?b = "fold (\<lambda>r b. widen b r) rest ?b0"
  let ?w1 = "w\<lparr>bufferLODs := js_set (bufferLODs w) ?L ?b, bufreqs := bufreqs w @ map (mkreq ?L) reqs\<rparr>"
  have "exec (map (\<lambda>(off, len). CallLoadBuffer uri off len) rest) ?w0 =
     Inr (?w0\<lparr>bufferLODs := js_set (bufferLODs ?w0) (or_zero (this_indexLOD ?w0)) ?b,
            bufreqs := bufreqs ?w0 @ map (mkreq (or_zero (this_indexLOD ?w0))) rest\<rparr>)"
    by (rule record_more[where chunk = chunk]) (use env lv0 in simp_all)
  then have ex: "exec (map (\<lambda>(off, len). CallLoadBuffer uri off len) reqs) w = Inr ?w1"
    using st0 lv0 by (simp add: reqs r0)
  have bs: "start ?b = ?lo" by (simp add: fold_widen_start reqs r0)
  have be: "end' ?b = ?hi" by (simp add: fold_widen_end reqs r0)
  have bl: "loaded ?b = Pending" by (simp add: fold_widen_loaded)
  have b: "?b = \<lparr>start = ?lo, end' = ?hi, loaded = Pending\<rparr>"
    using bs be bl by (cases ?b) simp
  have bk: "js_get (bufferLODs ?w1) ?L = Some \<lparr>start = ?lo, end' = ?hi, loaded = Pending\<rparr>"
    using b by simp
  let ?rd = "\<lparr>rd_level = ?L, rd_start = ?lo, rd_length = ?hi - ?lo + 1, rd_settled = False\<rparr>"
  let ?w2 = "?w1\<lparr>reads := reads ?w1 @ [?rd], events := ReadAsync ?L ?lo (?hi - ?lo + 1) # events ?w1\<rparr>"
  have lb: "loadBufferLOD ?L ?w1 = Inr ?w2"
    unfolding loadBufferLOD_def using bk env by simp
  have sl: "\<exists>w4 v. bufreq_run (length (bufreqs w) + k)
                    (readAsync_settled (length (reads ?w1)) (Some data) ?w2) = Some w4
            \<and> b_result (bufreqs w4 ! (length (bufreqs w) + k)) = Fulfilled v
            \<and> byteLength v = snd (reqs ! k)
            \<and> view_bytes v = take (nat (snd (reqs ! k))) (drop (nat (fst (reqs ! k) - ?lo)) (view_bytes data))"
    if k: "k < length reqs" and d: "0 \<le> byteOffset data" "byteLength data = ?hi - ?lo + 1"
      "byteOffset data + byteLength data \<le> int (length (buffer data))" for data k
  proof -
    let ?r = "reqs ! k"
    have rin: "?r \<in> set reqs" using k by simp
    have r1: "?lo \<le> fst ?r" using rin by simp
    have r2: "fst ?r + snd ?r - 1 \<le> ?hi" using rin by simp
    have r3: "0 \<le> snd ?r" using rin rng by blast
    obtain v where v: "Uint8Array (buffer data) (byteOffset data + fst ?r - ?lo) (snd ?r) = Inr v"
        "view_bytes v = take (nat (snd ?r)) (drop (nat (fst ?r - ?lo)) (view_bytes data))"
      using slice_of_view[OF d(1) d(2) d(3) r1 r3] r2 by auto
    have vl: "byteLength v = snd ?r" using v(1) by (auto simp: Uint8Array_def split: if_splits)
    let ?w3 = "readAsync_settled (length (reads ?w1)) (Some data) ?w2"
    have bk3: "js_get (bufferLODs ?w3) ?L = Some \<lparr>start = ?lo, end' = ?hi, loaded = Fulfilled data\<rparr>"
      using b by (simp add: readAsync_settled_def Let_def settle_def js_get_def js_set_def nth_append)
    have rq3: "bufreqs ?w3 = bufreqs w @ map (mkreq ?L) reqs"
      by (simp add: readAsync_settled_def Let_def)
    have rqk: "bufreqs ?w3 ! (length (bufreqs w) + k) = mkreq ?L ?r"
      using k by (simp only: rq3) (simp add: nth_append)
    have len3: "length (bufreqs w) + k < length (bufreqs ?w3)" using k by (simp only: rq3) simp
    show ?thesis
      using bk3 rqk len3 v vl k
      by (simp add: bufreq_run_def Let_def mkreq_def loadBufferAsync_then_def)
  qed
  have c1: "\<forall>off len. \<exists>w'. loadBufferAsync uri off len w = Inr (Some (length (bufreqs w)), w')
           \<and> js_get (bufferLODs w') ?L = Some \<lparr>start = off, end' = off + len - 1, loaded = Pending\<rparr>"
    using loadBufferAsync_first[OF env fresh] by blast
  have c2: "\<forall>w0 b off len. useRangeRequests w0 \<and> bin w0 = Some chunk
             \<and> js_get (bufferLODs w0) (or_zero (this_indexLOD w0)) = Some b \<longrightarrow>
           (\<exists>w'. loadBufferAsync uri off len w0 = Inr (Some (length (bufreqs w0)), w')
              \<and> js_get (bufferLODs w') (or_zero (this_indexLOD w0))
                  = Some (b\<lparr>start := min (start b) off, end' := max (end' b) (off + len - 1)\<rparr>))"
    using loadBufferAsync_later[OF _ env(2)] by blast
  have c3: "bufreqs ?w1 = bufreqs w @ map (mkreq ?L) reqs" by simp
  have c4: "reads ?w1 = reads w" by simp
  have c5: "reads ?w2 = reads ?w1 @ [?rd]" by simp
  have c6: "\<forall>data k. k < length reqs \<and> 0 \<le> byteOffset data \<and> byteLength data = ?hi - ?lo + 1
           \<and> byteOffset data + byteLength data \<le> int (length (buffer data)) \<longrightarrow>
         (\<exists>w4 v. bufreq_run (length (bufreqs w) + k)
                    (readAsync_settled (length (reads ?w1)) (Some data) ?w2) = Some w4
            \<and> b_result (bufreqs w4 ! (length (bufreqs w) + k)) = Fulfilled v
            \<and> byteLength v = snd (reqs ! k)
            \<and> view_bytes v = take (nat (snd (reqs ! k))) (drop (nat (fst (reqs ! k) - ?lo)) (view_bytes data)))"
    using sl by blast
  show ?thesis
    by (rule exI[of _ ?L], rule exI[of _ ?lo], rule exI[of _ ?hi], rule exI[of _ ?w1],
        rule exI[of _ ?w2], intro conjI refl)
       (fact c1, fact c2, fact ex, fact bk, fact c3, fact c4, fact lb, fact c5, fact c6)
qed

theorem ranges_coalesced_witness:
  "\<exists>w1 w2. exec [CallLoadBuffer None 10 5, CallLoadBuffer None 0 8]
              (init 10 True (Some [0, 1, 2, 3, 4, 5, 6, 7, 8, 9, 10, 11, 12, 13, 14, 15]) None None) = Inr w1
     \<and> js_get (bufferLODs w1) 0 = Some \<lparr>start = 0, end' = 14, loaded = Pending\<rparr>
     \<and> loadBufferLOD 0 w1 = Inr w2
     \<and> reads w2 = [\<lparr>rd_level = 0, rd_start = 0, rd_length = 15, rd_settled = False\<rparr>]
     \<and> (\<exists>w4 v. bufreq_run 0
            (readAsync_settled 0
               (Some \<lparr>buffer = [0, 1, 2, 3, 4, 5, 6, 7, 8, 9, 10, 11, 12, 13, 14], byteOffset = 0,
                      byteLength = 15\<rparr>) w2) = Some w4
          \<and> b_result (bufreqs w4 ! 0) = Fulfilled v
          \<and> view_bytes v = [10, 11, 12, 13, 14])"
proof -
  let ?chunk = "[0, 1, 2, 3, 4, 5, 6, 7, 8, 9, 10, 11, 12, 13, 14, 15] :: byte list"
  let ?w = "init 10 True (Some ?chunk) None None"
  let ?reqs = "[(10, 5), (0, 8)] :: (int \<times> int) list"
  let ?data = "\<lparr>buffer = [0, 1, 2, 3, 4, 5, 6, 7, 8, 9, 10, 11, 12, 13, 14] :: byte list, byteOffset = 0,
                byteLength = 15\<rparr>"
  have h: "useRangeRequests ?w" "\<not> truthy_string None" "bin ?w = Some ?chunk"
    "js_get (bufferLODs ?w) (or_zero (this_indexLOD ?w)) = None"
    "?reqs \<noteq> []"
    "\<forall>r \<in> set ?reqs. 0 \<le> snd r"
    by (simp_all add: init_def truthy_string_def js_get_def or_zero_def)
  have L: "or_zero (this_indexLOD ?w) = 0" by (simp add: init_def or_zero_def)
  have lo: "Min (fst ` set ?reqs) = 0" by simp
  have hi: "Max ((\<lambda>r. fst r + snd r - 1) ` set ?reqs) = 14" by simp
  have e: "reads ?w = []" "bufreqs ?w = []" by (simp_all add: init_def)
  from ranges_coalesced[OF h] obtain w1 w2 where
    1: "exec (map (\<lambda>(off, len). CallLoadBuffer None off len) ?reqs) ?w = Inr w1"
    and 2: "js_get (bufferLODs w1) 0 = Some \<lparr>start = 0, end' = 14, loaded = Pending\<rparr>"
    and 3: "loadBufferLOD 0 w1 = Inr w2"
    and 4: "reads w2 = reads w1 @ [\<lparr>rd_level = 0, rd_start = 0, rd_length = 14 - 0 + 1, rd_settled = False\<rparr>]"
    and 5: "reads w1 = reads ?w"
    and 6: "\<forall>data k. k < length ?reqs \<and> 0 \<le> byteOffset data \<and> byteLength data = 14 - 0 + 1
           \<and> byteOffset data + byteLength data \<le> int (length (buffer data)) \<longrightarrow>
         (\<exists>w4 v. bufreq_run (length (bufreqs ?w) + k)
                    (readAsync_settled (length (reads w1)) (Some data) w2) = Some w4
            \<and> b_result (bufreqs w4 ! (length (bufreqs ?w) + k)) = Fulfilled v
            \<and> byteLength v = snd (?reqs ! k)
            \<and> view_bytes v = take (nat (snd (?reqs ! k))) (drop (nat (fst (?reqs ! k) - 0)) (view_bytes data)))"
    unfolding L lo hi by blast
  have vb: "view_bytes ?data = [0, 1, 2, 3, 4, 5, 6, 7, 8, 9, 10, 11, 12, 13, 14]"
    by (simp add: view_bytes_def)
  have "0 < length ?reqs \<and> 0 \<le> byteOffset ?data \<and> byteLength ?data = 14 - 0 + 1
           \<and> byteOffset ?data + byteLength ?data \<le> int (length (buffer ?data))" by simp
  with 6 obtain w4 v where
    7: "bufreq_run (length (bufreqs ?w) + 0)
          (readAsync_settled (length (reads w1)) (Some ?data) w2) = Some w4"
    and 8: "b_result (bufreqs w4 ! (length (bufreqs ?w) + 0)) = Fulfilled v"
    and 9: "view_bytes v = take (nat (snd (?reqs ! 0))) (drop (nat (fst (?reqs ! 0) - 0)) (view_bytes ?data))"
    by blast
  have 9: "view_bytes v = [10, 11, 12, 13, 14]" unfolding 9 vb by simp
  have "\<exists>w4 v. bufreq_run 0 (readAsync_settled 0 (Some ?data) w2) = Some w4
          \<and> b_result (bufreqs w4 ! 0) = Fulfilled v \<and> view_bytes v = [10, 11, 12, 13, 14]"
    using 7 8 9 5 e by auto
  then show ?thesis using 1 2 3 4 5 e by simp
qed

subsection \<open>Reads\<close>


lemma loadBufferLOD_Inr:
  assumes "loadBufferLOD i w = Inr w'"
  shows "\<exists>b. js_get (bufferLODs w) i = Some b \<and> bin w \<noteq> None
     \<and> w' = w\<lparr>reads := reads w @ [read_of i b], events := read_event i b # events w\<rparr>"
  using assms by (auto simp: loadBufferLOD_def read_of_def read_event_def split: option.splits if_splits)

lemma onReady_buffers_Inr:
  assumes "onReady_buffers is w = Inr w'"
  shows "\<exists>bs. map (js_get (bufferLODs w)) is = map Some bs
     \<and> w' = w\<lparr>reads := reads w @ map2 read_of is bs, events := rev (map2 read_event is bs) @ events w\<rparr>"
  using assms
proof (induction "is" arbitrary: w)
  case Nil
  then show ?case by simp
next
  case (Cons i "is")
  from Cons.prems obtain w1 where 1: "loadBufferLOD i w = Inr w1" and 2: "onReady_buffers is w1 = Inr w'"
    by (auto split: sum.splits)
  from loadBufferLOD_Inr[OF 1] obtain b where b: "js_get (bufferLODs w) i = Some b"
    and w1: "w1 = w\<lparr>reads := reads w @ [read_of i b], events := read_event i b # events w\<rparr>" by blast
  from Cons.IH[OF 2] obtain bs where bs: "map (js_get (bufferLODs w1)) is = map Some bs"
    and w': "w' = w1\<lparr>reads := reads w1 @ map2 read_of is bs, events := rev (map2 read_event is bs) @ events w1\<rparr>"
    by blast
  show ?case
    by (rule exI[of _ "b # bs"]) (use b bs w1 w' in simp)
qed













subsection \<open>Steps and invariants of the executions\<close>

lemmas step_splits = option.splits sum.splits if_splits list.splits kind.splits promise.splits prod.splits

lemmas keeps_defs = keeps_loads_def keeps_marks_def keeps_ready_def keeps_signals_def

lemma step_cases [consumes 1, case_names Quiet Return Assign Uri Ready Settle ThenNode ThenMaterial Fire UriRun]:
  assumes "step l w = Inr w'"
  obtains
    (Quiet) "events w' = events w" "uris w' = uris w" "keeps_loads w w'" "keeps_marks w w'"
      "keeps_ready w w'" "keeps_signals w w'"
  | (Return) f fs where "stack w = f # fs"
      "tasks w' = tasks w @ [new_task f]"
      "promiseLODs (f_kind f) w' = push_promise (promiseLODs (f_kind f) w) (f_index f) (length (tasks w))"
      "\<forall>k. k \<noteq> f_kind f \<longrightarrow> promiseLODs k w' = promiseLODs k w"
      "events w' = events w \<or> (\<exists>b. events w' = read_event 0 b # events w)"
      "uris w' = uris w" "keeps_ready w w'"
      "\<forall>k. signals k w' = signals k w
          \<or> k = NodeK \<and> signals k w' = or_new (signals k w) (int (f_index f + 1))"
      "nodeIndexLOD w' = nodeIndexLOD w \<or> nodeIndexLOD w' = None \<or> nodeIndexLOD w' = Some (f_index f + 1)"
      "materialIndexLOD w' = materialIndexLOD w \<or> materialIndexLOD w' = None
         \<or> materialIndexLOD w' = Some (f_index f + 1)"
  | (Assign) e where "events w' = e # events w" "(\<exists>tn. e = SetEnabledFalse tn) \<or> (\<exists>m b. e = Assign m b)"
      "uris w' = uris w" "keeps_loads w w'" "keeps_marks w w'" "keeps_ready w w'" "keeps_signals w w'"
  | (Uri) k i where
      "k = MaterialK \<and> materialIndexLOD w = Some i
         \<or> k = NodeK \<and> materialIndexLOD w = None \<and> nodeIndexLOD w = Some i"
      "uris w' = uris w @ [\<lparr>u_kind = k, u_prev = int i - 1, u_issued = False\<rparr>]"
      "signals k w' = or_new (signals k w) (int i - 1)"
      "\<forall>k'. k' \<noteq> k \<longrightarrow> signals k' w' = signals k' w"
      "events w' = events w" "keeps_loads w w'" "keeps_marks w w'" "keeps_ready w w'"
  | (Ready) bs where "\<not> readyCalled w" "readyCalled w'"
      "readies w' = readies w
         @ map (ready_of NodeK (nodePromiseLODs w)) [0..<length (nodePromiseLODs w)]
         @ map (ready_of MaterialK (materialPromiseLODs w)) [0..<length (materialPromiseLODs w)]"
      "events w' = rev (map2 read_event [1..<length (bufferLODs w)] bs) @ events w"
      "uris w' = uris w" "keeps_loads w w'" "keeps_marks w w'" "keeps_signals w w'"
  | (Settle) p outcome where "p < length (tasks w)" "t_host (tasks w ! p) = Pending"
      "tasks w' = (tasks w)[p := (tasks w ! p)\<lparr>t_host := settle Pending outcome\<rparr>]"
      "\<forall>k. promiseLODs k w' = promiseLODs k w"
      "events w' = Settle p (outcome \<noteq> None) # events w"
      "uris w' = uris w" "keeps_marks w w'" "keeps_ready w w'" "keeps_signals w w'"
  | (ThenNode) p v es where "p < length (tasks w)" "t_then (tasks w ! p) = Pending"
      "t_host (tasks w ! p) = Fulfilled v" "t_kind (tasks w ! p) = NodeK"
      "tasks w' = (tasks w)[p := (tasks w ! p)\<lparr>t_then := Fulfilled ()\<rparr>]"
      "\<forall>k. promiseLODs k w' = promiseLODs k w"
      "events w' = SetEnabledTrue p v # es @ events w"
      "es = [] \<or> (\<exists>tn ds. t_index (tasks w ! p) \<noteq> 0
                     \<and> es = rev (map DisposeMaterial ds) @ [DisposeNode p tn])"
      "uris w' = uris w" "keeps_marks w w'" "keeps_ready w w'" "keeps_signals w w'"
  | (ThenMaterial) p v res es where "p < length (tasks w)" "t_then (tasks w ! p) = Pending"
      "t_host (tasks w ! p) = Fulfilled v" "t_kind (tasks w ! p) = MaterialK"
      "tasks w' = (tasks w)[p := (tasks w ! p)\<lparr>t_then := res\<rparr>]" "res \<noteq> Pending"
      "\<forall>k. promiseLODs k w' = promiseLODs k w"
      "events w' = es @ events w"
      "es = [] \<or> (\<exists>m. es = [Assign m v]) \<or> (\<exists>m b. es = [DisposePrevMaterial p b, Assign m v])"
      "uris w' = uris w" "keeps_marks w w'" "keeps_ready w w'" "keeps_signals w w'"
  | (Fire) r ps k i where "r < length (readies w)" "\<not> r_fired (readies w ! r)"
      "r_all (readies w ! r) = Some ps" "all_fulfilled w ps"
      "k = r_kind (readies w ! r)" "i = r_index (readies w ! r)"
      "readies w' = (readies w)[r := (readies w ! r)\<lparr>r_fired := True\<rparr>]"
      "readyCalled w' = readyCalled w"
      "events w' = LODsLoaded k i # events w \<and> keeps_signals w w'
         \<and> (int i = int (length (promiseLODs k w)) - 1 \<or> signals k w (int i) = None)
       \<or> events w' = ResolveSignal k i # LODsLoaded k i # events w
         \<and> int i \<noteq> int (length (promiseLODs k w)) - 1
         \<and> signals k w (int i) \<noteq> None
         \<and> signals k w' = (signals k w)(int i \<mapsto> True)
         \<and> (\<forall>k'. k' \<noteq> k \<longrightarrow> signals k' w' = signals k' w)"
      "uris w' = uris w" "keeps_loads w w'" "keeps_marks w w'"
  | (UriRun) u where "u < length (uris w)" "\<not> u_issued (uris w ! u)"
      "signals (u_kind (uris w ! u)) w (u_prev (uris w ! u)) = Some True"
      "uris w' = (uris w)[u := (uris w ! u)\<lparr>u_issued := True\<rparr>]"
      "events w' = LoadUri u (u_kind (uris w ! u)) (u_prev (uris w ! u)) # events w"
      "keeps_loads w w'" "keeps_marks w w'" "keeps_ready w w'" "keeps_signals w w'"
proof (cases l)
  case (CallLoadNode node extension)
  show ?thesis
    by (rule Quiet)
       (use assms CallLoadNode in \<open>auto simp: keeps_defs signals_def promiseLODs_def call_def
          loadNodeAsync_def loadNodeAsync_begin_def split: step_splits\<close>)
next
  case (CallLoadMaterial m e bm dm)
  show ?thesis
    by (rule Quiet)
       (use assms CallLoadMaterial in \<open>auto simp: keeps_defs signals_def promiseLODs_def call_def
          loadMaterialAsync_def loadMaterialAsync_begin_def split: step_splits\<close>)
next
  case ReturnLoad
  then obtain f fs where s: "stack w = f # fs" and r: "load_return w = Some (Inr w')"
    using assms by (auto simp: call_def load_return_def split: list.splits option.splits sum.splits)
  show ?thesis
  proof (cases "f_kind f")
    case NodeK
    show ?thesis
      by (rule Return[of f fs])
         (use r s NodeK in \<open>auto simp: load_return_def loadNodeAsync_end_def loadNodeAsync_begin_def
            loadBufferLOD_def Let_def new_task_def read_event_def promiseLODs_def signals_def
            keeps_defs split: sum.splits option.splits if_splits kind.splits\<close>)
  next
    case MaterialK
    show ?thesis
      by (rule Return[of f fs])
         (use r s MaterialK in \<open>auto simp: load_return_def loadMaterialAsync_end_def
            loadMaterialAsync_begin_def
            loadBufferLOD_def Let_def new_task_def read_event_def promiseLODs_def signals_def
            keeps_defs split: sum.splits option.splits if_splits kind.splits\<close>)
  qed
next
  case (HostAssignNode tn)
  show ?thesis
    by (rule Assign[of "SetEnabledFalse tn"])
       (use assms HostAssignNode in \<open>auto simp: keeps_defs signals_def promiseLODs_def split: step_splits\<close>)
next
  case (HostAssignMaterial m)
  then obtain f fs where s: "stack w = f # fs" "f_kind f = MaterialK"
    and w': "w' = loadMaterialAsync_assign f m w"
    using assms by (auto split: list.splits if_splits)
  show ?thesis
  proof (cases "f_index f = 0")
    case True
    show ?thesis
      by (rule Assign[of "Assign (f_mesh f) m"])
         (use w' True in \<open>auto simp: keeps_defs signals_def promiseLODs_def loadMaterialAsync_assign_def
            assign_def split: step_splits\<close>)
  next
    case False
    show ?thesis
      by (rule Quiet)
         (use w' False in \<open>auto simp: keeps_defs signals_def promiseLODs_def loadMaterialAsync_assign_def
            split: step_splits\<close>)
  qed
next
  case (HostWriteNode n tn)
  show ?thesis
    by (rule Quiet)
       (use assms HostWriteNode in \<open>auto simp: keeps_defs signals_def promiseLODs_def split: step_splits\<close>)
next
  case (HostWriteMaterial n d)
  show ?thesis
    by (rule Quiet)
       (use assms HostWriteMaterial in \<open>auto simp: keeps_defs signals_def promiseLODs_def split: step_splits\<close>)
next
  case CallLoadUri
  then have w': "w' = snd (loadUriAsync w)" using assms by simp
  show ?thesis
  proof (cases "materialIndexLOD w")
    case (Some i)
    show ?thesis
      by (rule Uri[of MaterialK i])
         (use w' Some in \<open>auto simp: keeps_defs signals_def promiseLODs_def loadUriAsync_def Let_def
            split: step_splits\<close>)
  next
    case None
    show ?thesis
    proof (cases "nodeIndexLOD w")
      case (Some i)
      show ?thesis
        by (rule Uri[of NodeK i])
           (use w' None Some in \<open>auto simp: keeps_defs signals_def promiseLODs_def loadUriAsync_def Let_def
              split: step_splits\<close>)
    next
      case None': None
      show ?thesis
        by (rule Quiet)
           (use w' None None' in \<open>auto simp: keeps_defs signals_def promiseLODs_def loadUriAsync_def\<close>)
    qed
  qed
next
  case (CallLoadBuffer uri off len)
  show ?thesis
    by (rule Quiet)
       (use assms CallLoadBuffer in \<open>auto simp: keeps_defs signals_def promiseLODs_def call_def
          loadBufferAsync_def Let_def split: step_splits\<close>)
next
  case CallOnReady
  then have nr: "\<not> readyCalled w" and r: "onReady w = Inr w'"
    using assms by (auto simp: call_def split: if_splits sum.splits)
  from onReady_buffers_Inr[OF r[unfolded onReady_def]] obtain bs where
    w': "w' = w\<lparr>readies := readies w
            @ map (ready_of NodeK (nodePromiseLODs w)) [0..<length (nodePromiseLODs w)]
            @ map (ready_of MaterialK (materialPromiseLODs w)) [0..<length (materialPromiseLODs w)],
          readyCalled := True,
          reads := reads w @ map2 read_of [1..<length (bufferLODs w)] bs,
          events := rev (map2 read_event [1..<length (bufferLODs w)] bs) @ events w\<rparr>"
    by (auto simp: ready_of_def[abs_def])
  show ?thesis
    by (rule Ready[of bs])
       (use nr w' in \<open>auto simp: keeps_defs signals_def promiseLODs_def split: kind.splits\<close>)
next
  case (SettleLoad p outcome)
  show ?thesis
    by (rule Settle[of p outcome])
       (use assms SettleLoad in \<open>auto simp: keeps_defs signals_def promiseLODs_def async_def
          load_settled_def split: step_splits\<close>)
next
  case (RunThen p)
  then have r: "then_run p w = Some w'" using assms by (auto simp: async_def split: if_splits option.splits)
  then obtain v where p: "p < length (tasks w)" "t_then (tasks w ! p) = Pending"
    "t_host (tasks w ! p) = Fulfilled v"
    by (auto simp: then_run_def Let_def split: if_splits promise.splits)
  show ?thesis
  proof (cases "t_kind (tasks w ! p)")
    case NodeK
    let ?es = "(if t_index (tasks w ! p) \<noteq> 0 then
                 (case node_field w (t_lods (tasks w ! p) ! (t_index (tasks w ! p) - 1)) of
                    None \<Rightarrow> []
                  | Some tn \<Rightarrow>
                     (case materials w of None \<Rightarrow> []
                      | Some ms \<Rightarrow> rev (map DisposeMaterial (snd (disposeUnused_loop (meshMaterial w) ms))))
                     @ [DisposeNode p tn])
               else [])"
    show ?thesis
      by (rule ThenNode[of p v ?es])
         (use r p NodeK in \<open>auto simp: keeps_defs signals_def promiseLODs_def then_run_def Let_def
            loadNodeAsync_then_def disposeUnusedMaterials_def split: step_splits\<close>)
  next
    case MaterialK
    obtain e w1 where m: "loadMaterialAsync_then p (tasks w ! p) v w = (e, w1)" by force
    let ?res = "(case e of None \<Rightarrow> Fulfilled () | Some _ \<Rightarrow> Rejected)"
    have ev: "\<exists>es. events w1 = es @ events w \<and> (es = [] \<or> (\<exists>m. es = [Assign m v])
                \<or> (\<exists>m b. es = [DisposePrevMaterial p b, Assign m v]))"
      using m by (auto simp: loadMaterialAsync_then_def assign_def Let_def split: step_splits)
    then obtain es where es: "events w1 = es @ events w" "es = [] \<or> (\<exists>m. es = [Assign m v])
                \<or> (\<exists>m b. es = [DisposePrevMaterial p b, Assign m v])" by blast
    have fr: "tasks w1 = tasks w" "uris w1 = uris w" "keeps_marks w w1" "keeps_ready w w1"
      "keeps_signals w w1" "\<forall>k. promiseLODs k w1 = promiseLODs k w"
      using m by (auto simp: loadMaterialAsync_then_def assign_def Let_def keeps_defs signals_def
          promiseLODs_def split: step_splits)
    have w': "w' = w1\<lparr>tasks := (tasks w1)[p := (tasks w ! p)\<lparr>t_then := ?res\<rparr>]\<rparr>"
      using r p MaterialK m by (simp add: then_run_def Let_def)
    show ?thesis
      by (rule ThenMaterial[of p v ?res es])
         (use p MaterialK es fr w' in \<open>auto simp: keeps_defs signals_def promiseLODs_def split: option.splits kind.splits\<close>)
  qed
next
  case (RunReady r)
  then have rr: "ready_run r w = Some w'" using assms by (auto simp: async_def split: if_splits option.splits)
  then obtain ps where p: "r < length (readies w)" "\<not> r_fired (readies w ! r)"
    "r_all (readies w ! r) = Some ps" "all_fulfilled w ps"
    by (auto simp: ready_run_def split: if_splits option.splits)
  show ?thesis
    by (rule Fire[of r ps "r_kind (readies w ! r)" "r_index (readies w ! r)"])
       (use rr p in \<open>auto simp: keeps_defs signals_def promiseLODs_def ready_run_def onReady_then_def
          resolve_signal_def Let_def split: step_splits\<close>)
next
  case (RunUri u)
  show ?thesis
    by (rule UriRun[of u])
       (use assms RunUri in \<open>auto simp: keeps_defs signals_def promiseLODs_def async_def urireq_run_def
          split: step_splits\<close>)
next
  case (SettleRead r outcome)
  show ?thesis
    by (rule Quiet)
       (use assms SettleRead in \<open>auto simp: keeps_defs signals_def promiseLODs_def async_def
          read_settle_def readAsync_settled_def Let_def split: step_splits\<close>)
next
  case (RunBuffer b)
  show ?thesis
    by (rule Quiet)
       (use assms RunBuffer in \<open>auto simp: keeps_defs signals_def promiseLODs_def async_def
          bufreq_run_def Let_def split: step_splits\<close>)
qed

lemma hist_split: "hist P (post @ e # pre) \<Longrightarrow> P e pre"
  by (induction post) auto

lemma hist_mono: "hist P es \<Longrightarrow> (\<And>e pre. P e pre \<Longrightarrow> Q e pre) \<Longrightarrow> hist Q es"
  by (induction es) auto

lemma hist_append: "hist P (new @ old) = (hist (\<lambda>e pre. P e (pre @ old)) new \<and> hist P old)"
  by (induction new) auto

lemma hist_trivial: "(\<And>e. e \<in> set new \<Longrightarrow> \<forall>pre. P e pre) \<Longrightarrow> hist P old \<Longrightarrow> hist P (new @ old)"
  by (induction new) auto

lemma exec_invariant:
  assumes "exec ls w0 = Inr w" and "P w0" and "\<And>l w w'. P w \<Longrightarrow> step l w = Inr w' \<Longrightarrow> P w'"
  shows "P w"
  using assms(1,2)
proof (induction ls arbitrary: w0)
  case Nil
  then show ?case by simp
next
  case (Cons l ls)
  then obtain w1 where 1: "step l w0 = Inr w1" and 2: "exec ls w1 = Inr w"
    by (auto split: sum.splits)
  show ?case by (rule Cons.IH[OF 2 assms(3)[OF Cons.prems(2) 1]])
qed

lemma uri_inv_init: "uri_inv (init a b c d e)"
  by (simp add: uri_inv_def init_def signals_def split: kind.splits)

lemma or_new_True [simp]: "(or_new a i j = Some True) = (a j = Some True)"
  by (simp add: or_new_def split: option.splits)

lemma uri_issue_simps [simp]:
  "uri_issue (LoadUri u k j) pre = (0 \<le> j \<and> ResolveSignal k (nat j) \<in> set pre)"
  "uri_issue (ReadAsync a b c) pre" "uri_issue (read_event a bb) pre"
  "uri_issue (SetEnabledFalse tn) pre" "uri_issue (Settle p ok) pre"
  "uri_issue (DisposeNode p tn) pre" "uri_issue (DisposeMaterial m) pre"
  "uri_issue (SetEnabledTrue p tn) pre" "uri_issue (Assign mm m) pre"
  "uri_issue (DisposePrevMaterial p m) pre" "uri_issue (LODsLoaded k i) pre"
  "uri_issue (ResolveSignal k i) pre"
  by (simp_all add: uri_issue_def read_event_def)

text \<open>A step that keeps the markers, the signals and the requests, and adds events that
  are no \<open>LoadUri\<close>.\<close>

lemma uri_inv_frame:
  assumes inv: "uri_inv w"
    and "keeps_marks w w'" "keeps_signals w w'" "uris w' = uris w"
    and ev: "events w' = new @ events w" "\<forall>e \<in> set new. \<forall>u k j. e \<noteq> LoadUri u k j"
  shows "uri_inv w'"
proof -
  note i = inv[unfolded uri_inv_def]
  have H: "hist uri_issue (events w')"
    unfolding ev(1) by (rule hist_trivial) (use ev(2) i in \<open>auto simp: uri_issue_def split: event.splits\<close>)
  show ?thesis
    unfolding uri_inv_def using i assms(2-4) ev H by (auto simp: keeps_defs)
qed

lemma uri_inv_step:
  assumes "step l w = Inr w'" "uri_inv w"
  shows "uri_inv w'"
  using assms
proof (cases rule: step_cases)
  case Quiet
  show ?thesis by (rule uri_inv_frame[OF assms(2), of _ "[]"]) (use Quiet in simp_all)
next
  case (Return f fs)
  note inv = assms(2)[unfolded uri_inv_def]
  have sub: "set (events w) \<subseteq> set (events w')" using Return(5) by auto
  have M: "nodeIndexLOD w' \<noteq> Some 0 \<and> materialIndexLOD w' \<noteq> Some 0"
    using Return(9,10) inv by auto
  have S: "\<forall>k j. signals k w' j = Some True \<longrightarrow> 0 \<le> j \<and> ResolveSignal k (nat j) \<in> set (events w')"
  proof (intro allI impI)
    fix k j assume a: "signals k w' j = Some True"
    have "signals k w j = Some True" using Return(8)[rule_format, of k] a by auto
    then show "0 \<le> j \<and> ResolveSignal k (nat j) \<in> set (events w')" using inv sub by blast
  qed
  have U: "\<forall>u < length (uris w'). 0 \<le> u_prev (uris w' ! u)" using Return(6) inv by simp
  have E: "\<forall>u k j. LoadUri u k j \<in> set (events w') \<longrightarrow>
            u < length (uris w') \<and> u_kind (uris w' ! u) = k \<and> u_prev (uris w' ! u) = j"
    using Return(5,6) inv by (auto simp: read_event_def)
  have H: "hist uri_issue (events w')" using Return(5) inv by auto
  show ?thesis unfolding uri_inv_def using M S U E H by blast
next
  case (Assign e)
  show ?thesis by (rule uri_inv_frame[OF assms(2), of _ "[e]"]) (use Assign in auto)
next
  case (Uri k i)
  note inv = assms(2)[unfolded uri_inv_def]
  have i: "i \<noteq> 0" using Uri(1) inv by auto
  have M: "nodeIndexLOD w' \<noteq> Some 0 \<and> materialIndexLOD w' \<noteq> Some 0"
    using Uri(7) inv by (simp add: keeps_defs)
  have S: "\<forall>k j. signals k w' j = Some True \<longrightarrow> 0 \<le> j \<and> ResolveSignal k (nat j) \<in> set (events w')"
  proof (intro allI impI)
    fix k' j assume a: "signals k' w' j = Some True"
    have "signals k' w j = Some True" using Uri(3,4) a by (cases "k' = k") auto
    then show "0 \<le> j \<and> ResolveSignal k' (nat j) \<in> set (events w')" using inv Uri(5) by simp
  qed
  have U: "\<forall>u < length (uris w'). 0 \<le> u_prev (uris w' ! u)"
    using Uri(2) inv i by (auto simp: nth_append)
  have E: "\<forall>u k j. LoadUri u k j \<in> set (events w') \<longrightarrow>
            u < length (uris w') \<and> u_kind (uris w' ! u) = k \<and> u_prev (uris w' ! u) = j"
  proof (intro allI impI)
    fix u k' j assume "LoadUri u k' j \<in> set (events w')"
    then have "u < length (uris w) \<and> u_kind (uris w ! u) = k' \<and> u_prev (uris w ! u) = j"
      using inv Uri(5) by simp
    then show "u < length (uris w') \<and> u_kind (uris w' ! u) = k' \<and> u_prev (uris w' ! u) = j"
      by (simp add: Uri(2) nth_append)
  qed
  have H: "hist uri_issue (events w')" using Uri(5) inv by simp
  show ?thesis unfolding uri_inv_def using M S U E H by blast
next
  case (Ready bs)
  show ?thesis
    by (rule uri_inv_frame[OF assms(2), of _ "rev (map2 read_event [1..<length (bufferLODs w)] bs)"])
       (use Ready in \<open>auto simp: read_event_def set_zip\<close>)
next
  case (Settle p outcome)
  show ?thesis by (rule uri_inv_frame[OF assms(2), of _ "[Settle p (outcome \<noteq> None)]"]) (use Settle in auto)
next
  case (ThenNode p v es)
  show ?thesis
    by (rule uri_inv_frame[OF assms(2), of _ "SetEnabledTrue p v # es"]) (use ThenNode in auto)
next
  case (ThenMaterial p v res es)
  show ?thesis
    by (rule uri_inv_frame[OF assms(2), of _ es]) (use ThenMaterial in auto)
next
  case (Fire r ps k i)
  note inv = assms(2)[unfolded uri_inv_def]
  from Fire(9) consider
      (plain) "events w' = LODsLoaded k i # events w" "keeps_signals w w'"
    | (resolve) "events w' = ResolveSignal k i # LODsLoaded k i # events w"
        "signals k w' = (signals k w)(int i \<mapsto> True)"
        "\<forall>k'. k' \<noteq> k \<longrightarrow> signals k' w' = signals k' w"
    by blast
  then show ?thesis
  proof cases
    case a: plain
    show ?thesis
      by (rule uri_inv_frame[OF assms(2), of _ "[LODsLoaded k i]"]) (use Fire a in auto)
  next
    case a: resolve
    have M: "nodeIndexLOD w' \<noteq> Some 0 \<and> materialIndexLOD w' \<noteq> Some 0"
      using Fire(12) inv by (simp add: keeps_defs)
    have S: "\<forall>k j. signals k w' j = Some True \<longrightarrow> 0 \<le> j \<and> ResolveSignal k (nat j) \<in> set (events w')"
    proof (intro allI impI)
      fix k' j assume b: "signals k' w' j = Some True"
      show "0 \<le> j \<and> ResolveSignal k' (nat j) \<in> set (events w')"
      proof (cases "k' = k \<and> j = int i")
        case True
        then show ?thesis using a(1) by simp
      next
        case False
        then have "signals k' w j = Some True" using a(2,3) b by (cases "k' = k") auto
        then show ?thesis using inv a(1) by simp
      qed
    qed
    have U: "\<forall>u < length (uris w'). 0 \<le> u_prev (uris w' ! u)" using Fire(10) inv by simp
    have E: "\<forall>u k j. LoadUri u k j \<in> set (events w') \<longrightarrow>
            u < length (uris w') \<and> u_kind (uris w' ! u) = k \<and> u_prev (uris w' ! u) = j"
      using Fire(10) a(1) inv by simp
    have H: "hist uri_issue (events w')" using a(1) inv by simp
    show ?thesis unfolding uri_inv_def using M S U E H by blast
  qed
next
  case (UriRun u)
  note inv = assms(2)[unfolded uri_inv_def]
  let ?k = "u_kind (uris w ! u)" and ?j = "u_prev (uris w ! u)"
  have M: "nodeIndexLOD w' \<noteq> Some 0 \<and> materialIndexLOD w' \<noteq> Some 0"
    using UriRun(7) inv by (simp add: keeps_defs)
  have S: "\<forall>k j. signals k w' j = Some True \<longrightarrow> 0 \<le> j \<and> ResolveSignal k (nat j) \<in> set (events w')"
    using UriRun(5,9) inv by (simp add: keeps_defs)
  have U: "\<forall>u < length (uris w'). 0 \<le> u_prev (uris w' ! u)"
    using UriRun(1,4) inv by (auto simp: nth_list_update)
  have E: "\<forall>u' k j. LoadUri u' k j \<in> set (events w') \<longrightarrow>
            u' < length (uris w') \<and> u_kind (uris w' ! u') = k \<and> u_prev (uris w' ! u') = j"
  proof (intro allI impI)
    fix u' k' j assume "LoadUri u' k' j \<in> set (events w')"
    then have "u' < length (uris w) \<and> u_kind (uris w ! u') = k' \<and> u_prev (uris w ! u') = j"
      using inv UriRun(1,5) by auto
    then show "u' < length (uris w') \<and> u_kind (uris w' ! u') = k' \<and> u_prev (uris w' ! u') = j"
      using UriRun(1) by (simp add: UriRun(4) nth_list_update)
  qed
  have "0 \<le> ?j \<and> ResolveSignal ?k (nat ?j) \<in> set (events w)" using inv UriRun(3) by blast
  then have H: "hist uri_issue (events w')" using UriRun(5) inv by simp
  show ?thesis unfolding uri_inv_def using M S U E H by blast
qed

lemma node_swap_simps [simp]:
  "node_swap (DisposeNode p tn) pre = (Settle p True \<in> set pre \<and> (\<forall>v. SetEnabledTrue p v \<notin> set pre))"
  "node_swap (LoadUri u k j) pre"
  "node_swap (ReadAsync a b c) pre" "node_swap (read_event a bb) pre"
  "node_swap (SetEnabledFalse tn) pre" "node_swap (Settle p ok) pre"
  "node_swap (DisposeMaterial m) pre"
  "node_swap (SetEnabledTrue p tn) pre" "node_swap (Assign mm m) pre"
  "node_swap (DisposePrevMaterial p m) pre" "node_swap (LODsLoaded k i) pre"
  "node_swap (ResolveSignal k i) pre"
  by (simp_all add: node_swap_def read_event_def)

lemma hist_all: "(\<And>e pre. e \<in> set es \<Longrightarrow> P e pre) \<Longrightarrow> hist P es"
  by (induction es) auto

lemma load_inv_init: "load_inv (init a b c d e)"
  by (simp add: load_inv_def init_def)

lemma load_inv_frame:
  assumes inv: "load_inv w" and t: "tasks w' = tasks w"
    and ev: "events w' = new @ events w"
      "\<forall>e \<in> set new. (\<forall>p tn. e \<noteq> DisposeNode p tn) \<and> (\<forall>p v. e \<noteq> SetEnabledTrue p v)"
  shows "load_inv w'"
proof -
  note i = inv[unfolded load_inv_def]
  have H: "hist node_swap (events w')"
    unfolding ev(1) by (rule hist_trivial) (use ev(2) i in \<open>auto simp: node_swap_def split: event.splits\<close>)
  have n: "\<And>p tn. DisposeNode p tn \<in> set (events w') \<longleftrightarrow> DisposeNode p tn \<in> set (events w)"
    "\<And>p v. SetEnabledTrue p v \<in> set (events w') \<longleftrightarrow> SetEnabledTrue p v \<in> set (events w)"
    using ev by auto
  have s: "\<And>p. Settle p True \<in> set (events w) \<Longrightarrow> Settle p True \<in> set (events w')"
    using ev by auto
  show ?thesis
    unfolding load_inv_def n t using i H s by blast
qed

lemma load_inv_step:
  assumes "step l w = Inr w'" "load_inv w"
  shows "load_inv w'"
  using assms
proof (cases rule: step_cases)
  case Quiet
  show ?thesis by (rule load_inv_frame[OF assms(2), of _ "[]"]) (use Quiet in \<open>simp_all add: keeps_defs\<close>)
next
  case (Return f fs)
  note inv = assms(2)[unfolded load_inv_def]
  from Return(5) obtain new where ev: "events w' = new @ events w"
    "\<forall>e \<in> set new. (\<forall>p tn. e \<noteq> DisposeNode p tn) \<and> (\<forall>p v. e \<noteq> SetEnabledTrue p v)"
    by (auto simp: read_event_def intro: that[of "[]"] that[of "[_]"])
  have H: "hist node_swap (events w')"
    unfolding ev(1) by (rule hist_trivial) (use ev(2) inv in \<open>auto simp: node_swap_def split: event.splits\<close>)
  have n: "\<And>p tn. DisposeNode p tn \<in> set (events w') \<longleftrightarrow> DisposeNode p tn \<in> set (events w)"
    "\<And>p v. SetEnabledTrue p v \<in> set (events w') \<longleftrightarrow> SetEnabledTrue p v \<in> set (events w)"
    using ev by auto
  have s: "\<And>p. Settle p True \<in> set (events w) \<Longrightarrow> Settle p True \<in> set (events w')"
    using ev by auto
  have nt: "t_host (new_task f) = Pending" "t_then (new_task f) = Pending" by (simp_all add: new_task_def)
  have old: "\<And>p. p < length (tasks w) \<Longrightarrow> tasks w' ! p = tasks w ! p"
    and new: "tasks w' ! length (tasks w) = new_task f" and len: "length (tasks w') = Suc (length (tasks w))"
    by (simp_all add: Return(2) nth_append)
  have T1: "\<forall>p < length (tasks w'). \<forall>v. t_host (tasks w' ! p) = Fulfilled v \<longrightarrow> Settle p True \<in> set (events w')"
    using inv s old new nt len by (auto simp: less_Suc_eq)
  have T2: "\<forall>p < length (tasks w'). t_then (tasks w' ! p) \<noteq> Pending \<longrightarrow> (\<exists>v. t_host (tasks w' ! p) = Fulfilled v)"
    using inv old new nt len by (auto simp: less_Suc_eq)
  have T3: "\<forall>p tn. DisposeNode p tn \<in> set (events w') \<longrightarrow>
            p < length (tasks w') \<and> t_kind (tasks w' ! p) = NodeK \<and> t_index (tasks w' ! p) \<noteq> 0
            \<and> (\<exists>v. SetEnabledTrue p v \<in> set (events w'))"
    unfolding n using inv old len by (metis less_Suc_eq)
  have T4: "\<forall>p v. SetEnabledTrue p v \<in> set (events w') \<longrightarrow>
            p < length (tasks w') \<and> t_then (tasks w' ! p) \<noteq> Pending \<and> t_host (tasks w' ! p) = Fulfilled v"
    unfolding n using inv old len by (metis less_Suc_eq)
  show ?thesis unfolding load_inv_def using T1 T2 T3 T4 H by blast
next
  case (Assign e)
  show ?thesis by (rule load_inv_frame[OF assms(2), of _ "[e]"]) (use Assign in \<open>auto simp: keeps_defs\<close>)
next
  case (Uri k i)
  show ?thesis by (rule load_inv_frame[OF assms(2), of _ "[]"]) (use Uri in \<open>simp_all add: keeps_defs\<close>)
next
  case (Ready bs)
  show ?thesis
    by (rule load_inv_frame[OF assms(2), of _ "rev (map2 read_event [1..<length (bufferLODs w)] bs)"])
       (use Ready in \<open>auto simp: read_event_def set_zip keeps_defs\<close>)
next
  case (Settle p outcome)
  note inv = assms(2)[unfolded load_inv_def]
  have H: "hist node_swap (events w')" using Settle(5) inv by simp
  have n: "\<And>p tn. DisposeNode p tn \<in> set (events w') \<longleftrightarrow> DisposeNode p tn \<in> set (events w)"
    "\<And>p v. SetEnabledTrue p v \<in> set (events w') \<longleftrightarrow> SetEnabledTrue p v \<in> set (events w)"
    using Settle(5) by auto
  have len: "length (tasks w') = length (tasks w)" by (simp add: Settle(3))
  have same: "\<And>q. q < length (tasks w) \<Longrightarrow> t_then (tasks w' ! q) = t_then (tasks w ! q)
      \<and> t_kind (tasks w' ! q) = t_kind (tasks w ! q) \<and> t_index (tasks w' ! q) = t_index (tasks w ! q)"
    using Settle(1) by (simp add: Settle(3) nth_list_update)
  have other: "\<And>q. q < length (tasks w) \<Longrightarrow> q \<noteq> p \<Longrightarrow> tasks w' ! q = tasks w ! q"
    by (simp add: Settle(3))
  have hp: "t_host (tasks w' ! p) = settle Pending outcome" using Settle(1) by (simp add: Settle(3))
  have pp: "t_then (tasks w ! p) = Pending" using inv Settle(1,2) by force
  have T1: "\<forall>q < length (tasks w'). \<forall>v. t_host (tasks w' ! q) = Fulfilled v \<longrightarrow> Settle q True \<in> set (events w')"
  proof (intro allI impI)
    fix q v assume q: "q < length (tasks w')" and f: "t_host (tasks w' ! q) = Fulfilled v"
    show "Settle q True \<in> set (events w')"
    proof (cases "q = p")
      case True
      then have "outcome \<noteq> None" using f hp by (auto simp: settle_def split: option.splits)
      then show ?thesis using True Settle(5) by simp
    next
      case False
      then show ?thesis using q f other inv len Settle(5) by auto
    qed
  qed
  have T2: "\<forall>q < length (tasks w'). t_then (tasks w' ! q) \<noteq> Pending \<longrightarrow> (\<exists>v. t_host (tasks w' ! q) = Fulfilled v)"
  proof (intro allI impI)
    fix q assume q: "q < length (tasks w')" and f: "t_then (tasks w' ! q) \<noteq> Pending"
    have "q \<noteq> p" using f same q len pp by auto
    then show "\<exists>v. t_host (tasks w' ! q) = Fulfilled v" using q f other inv len by auto
  qed
  have T3: "\<forall>q tn. DisposeNode q tn \<in> set (events w') \<longrightarrow>
            q < length (tasks w') \<and> t_kind (tasks w' ! q) = NodeK \<and> t_index (tasks w' ! q) \<noteq> 0
            \<and> (\<exists>v. SetEnabledTrue q v \<in> set (events w'))"
    unfolding n len using inv same by metis
  have T4: "\<forall>q v. SetEnabledTrue q v \<in> set (events w') \<longrightarrow>
            q < length (tasks w') \<and> t_then (tasks w' ! q) \<noteq> Pending \<and> t_host (tasks w' ! q) = Fulfilled v"
  proof (intro allI impI)
    fix q v assume "SetEnabledTrue q v \<in> set (events w')"
    then have a: "q < length (tasks w)" "t_then (tasks w ! q) \<noteq> Pending" "t_host (tasks w ! q) = Fulfilled v"
      using inv n by blast+
    then have "q \<noteq> p" using pp by auto
    then show "q < length (tasks w') \<and> t_then (tasks w' ! q) \<noteq> Pending \<and> t_host (tasks w' ! q) = Fulfilled v"
      using a other len by simp
  qed
  show ?thesis unfolding load_inv_def using T1 T2 T3 T4 H by blast
next
  case (ThenNode p v es)
  note inv = assms(2)[unfolded load_inv_def]
  have sp: "Settle p True \<in> set (events w)" using inv ThenNode(1,3) by blast
  have np: "\<And>v'. SetEnabledTrue p v' \<notin> set (events w)" using inv ThenNode(2) by blast
  have es: "\<forall>e \<in> set es. (\<forall>q v. e \<noteq> SetEnabledTrue q v) \<and> (\<forall>q tn. e = DisposeNode q tn \<longrightarrow> q = p \<and> t_index (tasks w ! p) \<noteq> 0)"
    using ThenNode(8) by auto
  have Hes: "hist (\<lambda>e pre. node_swap e (pre @ events w)) es"
  proof -
    from ThenNode(8) consider "es = []"
      | tn ds where "es = rev (map DisposeMaterial ds) @ [DisposeNode p tn]" by blast
    then show ?thesis
    proof cases
      case 1
      then show ?thesis by simp
    next
      case 2
      have "hist (\<lambda>e pre. node_swap e ((pre @ [DisposeNode p tn]) @ events w)) (rev (map DisposeMaterial ds))"
        by (rule hist_all) auto
      then show ?thesis using sp np by (simp add: 2 hist_append)
    qed
  qed
  have H: "hist node_swap (events w')"
    using inv Hes by (simp add: ThenNode(7) hist_append)
  have len: "length (tasks w') = length (tasks w)" by (simp add: ThenNode(5))
  have same: "\<And>q. q < length (tasks w) \<Longrightarrow> t_host (tasks w' ! q) = t_host (tasks w ! q)
      \<and> t_kind (tasks w' ! q) = t_kind (tasks w ! q) \<and> t_index (tasks w' ! q) = t_index (tasks w ! q)"
    using ThenNode(1) by (simp add: ThenNode(5) nth_list_update)
  have other: "\<And>q. q < length (tasks w) \<Longrightarrow> q \<noteq> p \<Longrightarrow> tasks w' ! q = tasks w ! q"
    by (simp add: ThenNode(5))
  have tp: "t_then (tasks w' ! p) = Fulfilled ()" using ThenNode(1) by (simp add: ThenNode(5))
  have sub: "set (events w) \<subseteq> set (events w')" by (auto simp: ThenNode(7))
  have T1: "\<forall>q < length (tasks w'). \<forall>v. t_host (tasks w' ! q) = Fulfilled v \<longrightarrow> Settle q True \<in> set (events w')"
    using inv same len sub by (metis subsetD)
  have T2: "\<forall>q < length (tasks w'). t_then (tasks w' ! q) \<noteq> Pending \<longrightarrow> (\<exists>v. t_host (tasks w' ! q) = Fulfilled v)"
  proof (intro allI impI)
    fix q assume q: "q < length (tasks w')" and f: "t_then (tasks w' ! q) \<noteq> Pending"
    show "\<exists>v. t_host (tasks w' ! q) = Fulfilled v"
    proof (cases "q = p")
      case True
      then show ?thesis using same ThenNode(1,3) by auto
    next
      case False
      then show ?thesis using q f other inv len by auto
    qed
  qed
  have T4: "\<forall>q v'. SetEnabledTrue q v' \<in> set (events w') \<longrightarrow>
            q < length (tasks w') \<and> t_then (tasks w' ! q) \<noteq> Pending \<and> t_host (tasks w' ! q) = Fulfilled v'"
  proof (intro allI impI)
    fix q v' assume a: "SetEnabledTrue q v' \<in> set (events w')"
    show "q < length (tasks w') \<and> t_then (tasks w' ! q) \<noteq> Pending \<and> t_host (tasks w' ! q) = Fulfilled v'"
    proof (cases "q = p")
      case True
      have "v' = v" using a es np True by (auto simp: ThenNode(7))
      then show ?thesis using True tp same ThenNode(1,3) len by auto
    next
      case False
      then have "SetEnabledTrue q v' \<in> set (events w)" using a es by (auto simp: ThenNode(7))
      then have "q < length (tasks w) \<and> t_then (tasks w ! q) \<noteq> Pending \<and> t_host (tasks w ! q) = Fulfilled v'"
        using inv by blast
      then show ?thesis using False other len by simp
    qed
  qed
  have T3: "\<forall>q tn. DisposeNode q tn \<in> set (events w') \<longrightarrow>
            q < length (tasks w') \<and> t_kind (tasks w' ! q) = NodeK \<and> t_index (tasks w' ! q) \<noteq> 0
            \<and> (\<exists>v. SetEnabledTrue q v \<in> set (events w'))"
  proof (intro allI impI)
    fix q tn assume a: "DisposeNode q tn \<in> set (events w')"
    then consider "DisposeNode q tn \<in> set es" | "DisposeNode q tn \<in> set (events w)"
      by (auto simp: ThenNode(7))
    then show "q < length (tasks w') \<and> t_kind (tasks w' ! q) = NodeK \<and> t_index (tasks w' ! q) \<noteq> 0
            \<and> (\<exists>v. SetEnabledTrue q v \<in> set (events w'))"
    proof cases
      case 1
      then have "q = p" "t_index (tasks w ! p) \<noteq> 0" using es by auto
      then show ?thesis using same ThenNode(1,4) len by (auto simp: ThenNode(7))
    next
      case 2
      then have "q < length (tasks w) \<and> t_kind (tasks w ! q) = NodeK \<and> t_index (tasks w ! q) \<noteq> 0
            \<and> (\<exists>v. SetEnabledTrue q v \<in> set (events w))" using inv by blast
      then show ?thesis using same len sub by auto
    qed
  qed
  show ?thesis unfolding load_inv_def using T1 T2 T3 T4 H by blast
next
  case (ThenMaterial p v res es)
  note inv = assms(2)[unfolded load_inv_def]
  have es: "\<forall>e \<in> set es. (\<forall>p tn. e \<noteq> DisposeNode p tn) \<and> (\<forall>p v. e \<noteq> SetEnabledTrue p v)"
    using ThenMaterial(9) by auto
  have H: "hist node_swap (events w')"
    unfolding ThenMaterial(8) by (rule hist_trivial) (use es inv in \<open>auto simp: node_swap_def split: event.splits\<close>)
  have n: "\<And>p tn. DisposeNode p tn \<in> set (events w') \<longleftrightarrow> DisposeNode p tn \<in> set (events w)"
    "\<And>p v. SetEnabledTrue p v \<in> set (events w') \<longleftrightarrow> SetEnabledTrue p v \<in> set (events w)"
    using es ThenMaterial(8) by auto
  have sub: "set (events w) \<subseteq> set (events w')" by (auto simp: ThenMaterial(8))
  have len: "length (tasks w') = length (tasks w)" by (simp add: ThenMaterial(5))
  have same: "\<And>q. q < length (tasks w) \<Longrightarrow> t_host (tasks w' ! q) = t_host (tasks w ! q)
      \<and> t_kind (tasks w' ! q) = t_kind (tasks w ! q) \<and> t_index (tasks w' ! q) = t_index (tasks w ! q)"
    using ThenMaterial(1) by (simp add: ThenMaterial(5) nth_list_update)
  have other: "\<And>q. q < length (tasks w) \<Longrightarrow> q \<noteq> p \<Longrightarrow> tasks w' ! q = tasks w ! q"
    by (simp add: ThenMaterial(5))
  have tp: "t_then (tasks w' ! p) = res" using ThenMaterial(1) by (simp add: ThenMaterial(5))
  have T1: "\<forall>q < length (tasks w'). \<forall>v. t_host (tasks w' ! q) = Fulfilled v \<longrightarrow> Settle q True \<in> set (events w')"
    using inv same len sub by (metis subsetD)
  have T2: "\<forall>q < length (tasks w'). t_then (tasks w' ! q) \<noteq> Pending \<longrightarrow> (\<exists>v. t_host (tasks w' ! q) = Fulfilled v)"
  proof (intro allI impI)
    fix q assume q: "q < length (tasks w')" and f: "t_then (tasks w' ! q) \<noteq> Pending"
    show "\<exists>v. t_host (tasks w' ! q) = Fulfilled v"
    proof (cases "q = p")
      case True
      then show ?thesis using same ThenMaterial(1,3) by auto
    next
      case False
      then show ?thesis using q f other inv len by auto
    qed
  qed
  have T3: "\<forall>q tn. DisposeNode q tn \<in> set (events w') \<longrightarrow>
            q < length (tasks w') \<and> t_kind (tasks w' ! q) = NodeK \<and> t_index (tasks w' ! q) \<noteq> 0
            \<and> (\<exists>v. SetEnabledTrue q v \<in> set (events w'))"
    unfolding n len using inv same by metis
  have T4: "\<forall>q v'. SetEnabledTrue q v' \<in> set (events w') \<longrightarrow>
            q < length (tasks w') \<and> t_then (tasks w' ! q) \<noteq> Pending \<and> t_host (tasks w' ! q) = Fulfilled v'"
  proof (intro allI impI)
    fix q v' assume "SetEnabledTrue q v' \<in> set (events w')"
    then have a: "q < length (tasks w)" "t_then (tasks w ! q) \<noteq> Pending" "t_host (tasks w ! q) = Fulfilled v'"
      using inv n by blast+
    then have "q \<noteq> p" using ThenMaterial(2) by auto
    then show "q < length (tasks w') \<and> t_then (tasks w' ! q) \<noteq> Pending \<and> t_host (tasks w' ! q) = Fulfilled v'"
      using a other len by simp
  qed
  show ?thesis unfolding load_inv_def using T1 T2 T3 T4 H by blast
next
  case (Fire r ps k i)
  from Fire(9) obtain new where "events w' = new @ events w"
    "\<forall>e \<in> set new. (\<forall>p tn. e \<noteq> DisposeNode p tn) \<and> (\<forall>p v. e \<noteq> SetEnabledTrue p v)"
    by (auto intro: that[of "[_]"] that[of "[_, _]"])
  then show ?thesis by (intro load_inv_frame[OF assms(2), of _ new]) (use Fire in \<open>simp_all add: keeps_defs\<close>)
next
  case (UriRun u)
  show ?thesis
    by (rule load_inv_frame[OF assms(2), of _ "[LoadUri u (u_kind (uris w ! u)) (u_prev (uris w ! u))]"])
       (use UriRun in \<open>simp_all add: keeps_defs\<close>)
qed

lemma ready_fire_simps [simp]:
  "ready_fire rs (LODsLoaded k i) pre =
     (\<forall>r < length rs. r_kind (rs ! r) = k \<and> r_index (rs ! r) = i \<longrightarrow>
             (\<exists>ps. r_all (rs ! r) = Some ps \<and> (\<forall>p \<in> set ps. Settle p True \<in> set pre)))"
  "ready_fire rs (DisposeNode p tn) pre"
  "ready_fire rs (LoadUri u k j) pre"
  "ready_fire rs (ReadAsync a b c) pre" "ready_fire rs (read_event a bb) pre"
  "ready_fire rs (SetEnabledFalse tn) pre" "ready_fire rs (Settle p ok) pre"
  "ready_fire rs (DisposeMaterial m) pre"
  "ready_fire rs (SetEnabledTrue p tn) pre" "ready_fire rs (Assign mm m) pre"
  "ready_fire rs (DisposePrevMaterial p m) pre"
  "ready_fire rs (ResolveSignal k i) pre"
  by (simp_all add: ready_fire_def read_event_def)

lemma ready_inv_init: "ready_inv (init a b c d e)"
  by (simp add: ready_inv_def init_def promiseLODs_def js_get_def split: kind.splits)

lemma all_fulfilled_same:
  assumes "all_fulfilled w ps" "length (tasks w) \<le> length (tasks w')"
    "\<And>p. p < length (tasks w) \<Longrightarrow> t_then (tasks w ! p) = Fulfilled () \<Longrightarrow> t_then (tasks w' ! p) = Fulfilled ()"
  shows "all_fulfilled w' ps"
  using assms by (auto simp: all_fulfilled_def list_all_iff)

text \<open>A step that keeps the registrations and the promises of the levels and adds events
  that are no \<open>LODsLoaded\<close>.\<close>

lemma ready_inv_frame:
  assumes inv: "ready_inv w" and "keeps_ready w w'"
    and pl: "\<forall>k i ps. js_get (promiseLODs k w') i = Some ps \<longrightarrow>
            (\<forall>p \<in> set ps. p < length (tasks w') \<and> t_kind (tasks w' ! p) = k \<and> t_index (tasks w' ! p) = i)"
    and len: "length (tasks w) \<le> length (tasks w')"
    and same: "\<And>p. p < length (tasks w) \<Longrightarrow> t_kind (tasks w' ! p) = t_kind (tasks w ! p)
        \<and> t_index (tasks w' ! p) = t_index (tasks w ! p)
        \<and> (t_then (tasks w ! p) = Fulfilled () \<longrightarrow> t_then (tasks w' ! p) = Fulfilled ())"
    and ev: "events w' = new @ events w" "\<forall>e \<in> set new. \<forall>k i. e \<noteq> LODsLoaded k i"
  shows "ready_inv w'"
proof -
  note i = inv[unfolded ready_inv_def]
  have r: "readies w' = readies w" "readyCalled w' = readyCalled w" using assms(2) by (simp_all add: keeps_defs)
  have H: "hist (ready_fire (readies w')) (events w')"
    unfolding ev(1) r by (rule hist_trivial) (use ev(2) i in \<open>auto simp: ready_fire_def split: event.splits\<close>)
  have c: "\<And>k i. count_list (events w') (LODsLoaded k i) = count_list (events w) (LODsLoaded k i)"
    using ev(2) by (auto simp: ev(1) count_list_0_iff)
  have R4: "\<forall>r < length (readies w'). r_fired (readies w' ! r) \<longrightarrow>
            (\<exists>ps. r_all (readies w' ! r) = Some ps \<and> all_fulfilled w' ps)"
  proof (intro allI impI)
    fix r assume "r < length (readies w')" "r_fired (readies w' ! r)"
    then obtain ps where ps: "r_all (readies w ! r) = Some ps" "all_fulfilled w ps"
      using i unfolding r by blast
    have "all_fulfilled w' ps" by (rule all_fulfilled_same[OF ps(2) len]) (use same in blast)
    then show "\<exists>ps. r_all (readies w' ! r) = Some ps \<and> all_fulfilled w' ps" using ps(1) r by simp
  qed
  have R5: "\<forall>r < length (readies w'). \<forall>ps. r_all (readies w' ! r) = Some ps \<longrightarrow>
            (\<forall>p \<in> set ps. p < length (tasks w') \<and> t_kind (tasks w' ! p) = r_kind (readies w' ! r)
                \<and> t_index (tasks w' ! p) = r_index (readies w' ! r))"
  proof (intro allI impI ballI)
    fix r ps p assume a: "r < length (readies w')" "r_all (readies w' ! r) = Some ps" "p \<in> set ps"
    then have b: "p < length (tasks w) \<and> t_kind (tasks w ! p) = r_kind (readies w ! r)
                \<and> t_index (tasks w ! p) = r_index (readies w ! r)"
      using i unfolding r by blast
    then show "p < length (tasks w') \<and> t_kind (tasks w' ! p) = r_kind (readies w' ! r)
                \<and> t_index (tasks w' ! p) = r_index (readies w' ! r)"
      using same[of p] len by (simp add: r)
  qed
  note P1 = pl
  have R1: "\<not> readyCalled w' \<longrightarrow> readies w' = []" using i r by simp
  have R2: "distinct (map ready_key (readies w'))" using i r by simp
  have R3: "\<forall>k i. count_list (events w') (LODsLoaded k i)
            = (if \<exists>r < length (readies w'). ready_key (readies w' ! r) = (k, i) \<and> r_fired (readies w' ! r)
               then 1 else 0)"
    unfolding r c using i by blast
  show ?thesis
    unfolding ready_inv_def using R1 R2 R3 R4 R5 P1 H by blast
qed

lemma promises_same:
  assumes "ready_inv w" "\<forall>k. promiseLODs k w' = promiseLODs k w"
    and len: "length (tasks w) \<le> length (tasks w')"
    and same: "\<And>p. p < length (tasks w) \<Longrightarrow> t_kind (tasks w' ! p) = t_kind (tasks w ! p)
        \<and> t_index (tasks w' ! p) = t_index (tasks w ! p)"
  shows "\<forall>k i ps. js_get (promiseLODs k w') i = Some ps \<longrightarrow>
            (\<forall>p \<in> set ps. p < length (tasks w') \<and> t_kind (tasks w' ! p) = k \<and> t_index (tasks w' ! p) = i)"
proof (intro allI impI ballI)
  fix k i' ps p assume a: "js_get (promiseLODs k w') i' = Some ps" "p \<in> set ps"
  then have b: "p < length (tasks w) \<and> t_kind (tasks w ! p) = k \<and> t_index (tasks w ! p) = i'"
    using assms(1,2) unfolding ready_inv_def by auto
  then show "p < length (tasks w') \<and> t_kind (tasks w' ! p) = k \<and> t_index (tasks w' ! p) = i'"
    using same[of p] len by simp
qed

lemma js_get_push:
  "js_get (push_promise a i p) j =
     (if j = i then Some ((case js_get a i of Some ps \<Rightarrow> ps | None \<Rightarrow> []) @ [p]) else js_get a j)"
  by (simp add: push_promise_def)

lemma distinct_key_eq:
  assumes "distinct (map f xs)" "i < length xs" "j < length xs" "f (xs ! i) = f (xs ! j)"
  shows "i = j"
  using assms by (metis length_map nth_eq_iff_index_eq nth_map)

lemma ready_inv_step:
  assumes "step l w = Inr w'" "ready_inv w" "load_inv w"
  shows "ready_inv w'"
  using assms(1)
proof (cases rule: step_cases)
  case Quiet
  show ?thesis
    by (rule ready_inv_frame[OF assms(2), of _ "[]"], (use Quiet in \<open>simp add: keeps_defs\<close>)?,
        rule promises_same[OF assms(2)]) (use Quiet in \<open>simp_all add: keeps_defs\<close>)
next
  case (Return f fs)
  note inv = assms(2)[unfolded ready_inv_def]
  from Return(5) obtain new where ev: "events w' = new @ events w" "\<forall>e \<in> set new. \<forall>k i. e \<noteq> LODsLoaded k i"
    by (auto simp: read_event_def intro: that[of "[]"] that[of "[_]"])
  have old: "\<And>p. p < length (tasks w) \<Longrightarrow> tasks w' ! p = tasks w ! p"
    and new: "tasks w' ! length (tasks w) = new_task f" and len: "length (tasks w') = Suc (length (tasks w))"
    by (simp_all add: Return(2) nth_append)
  have pl: "\<forall>k i ps. js_get (promiseLODs k w') i = Some ps \<longrightarrow>
            (\<forall>p \<in> set ps. p < length (tasks w') \<and> t_kind (tasks w' ! p) = k \<and> t_index (tasks w' ! p) = i)"
  proof (intro allI impI ballI)
    fix k i' ps p assume a: "js_get (promiseLODs k w') i' = Some ps" "p \<in> set ps"
    show "p < length (tasks w') \<and> t_kind (tasks w' ! p) = k \<and> t_index (tasks w' ! p) = i'"
    proof (cases "k = f_kind f \<and> i' = f_index f")
      case True
      then have ps: "ps = (case js_get (promiseLODs k w) i' of Some ps \<Rightarrow> ps | None \<Rightarrow> []) @ [length (tasks w)]"
        using a(1) Return(3) by (simp add: js_get_push)
      show ?thesis
      proof (cases "p = length (tasks w)")
        case p: True
        then show ?thesis using True new len by (simp add: new_task_def)
      next
        case False
        then obtain ps0 where "js_get (promiseLODs k w) i' = Some ps0" "p \<in> set ps0"
          using ps a(2) by (auto split: option.splits)
        then have "p < length (tasks w) \<and> t_kind (tasks w ! p) = k \<and> t_index (tasks w ! p) = i'"
          using inv by blast
        then show ?thesis using old len by simp
      qed
    next
      case False
      then have "js_get (promiseLODs k w) i' = Some ps"
        using a(1) Return(3,4) by (cases "k = f_kind f") (auto simp: js_get_push)
      then have "p < length (tasks w) \<and> t_kind (tasks w ! p) = k \<and> t_index (tasks w ! p) = i'"
        using inv a(2) by blast
      then show ?thesis using old len by simp
    qed
  qed
  show ?thesis
    by (rule ready_inv_frame[OF assms(2) Return(7) pl _ _ ev]) (use old len in simp_all)
next
  case (Assign e)
  show ?thesis
    by (rule ready_inv_frame[OF assms(2), of _ "[e]"], (use Assign in \<open>simp add: keeps_defs\<close>)?,
        rule promises_same[OF assms(2)]) (use Assign in \<open>auto simp: keeps_defs\<close>)
next
  case (Uri k i)
  show ?thesis
    by (rule ready_inv_frame[OF assms(2), of _ "[]"], (use Uri in \<open>simp add: keeps_defs\<close>)?,
        rule promises_same[OF assms(2)]) (use Uri in \<open>simp_all add: keeps_defs\<close>)
next
  case (Ready bs)
  note inv = assms(2)[unfolded ready_inv_def]
  have e0: "readies w = []" using inv Ready(1) by simp
  have no: "\<And>k i. LODsLoaded k i \<notin> set (events w)"
    using inv e0 by (simp add: count_list_0_iff[symmetric])
  have no': "\<And>k i. LODsLoaded k i \<notin> set (events w')"
    using no by (auto simp: Ready(4) read_event_def set_zip)
  let ?n = "length (nodePromiseLODs w)" and ?m = "length (materialPromiseLODs w)"
  have rs: "readies w' = map (ready_of NodeK (promiseLODs NodeK w)) [0..<?n]
         @ map (ready_of MaterialK (promiseLODs MaterialK w)) [0..<?m]"
    using Ready(3) e0 by (simp add: promiseLODs_def)
  have el: "\<And>r. r < length (readies w') \<Longrightarrow>
      \<exists>k i. readies w' ! r = ready_of k (promiseLODs k w) i"
  proof -
    fix r assume "r < length (readies w')"
    then have "readies w' ! r \<in> set (readies w')" by simp
    then show "\<exists>k i. readies w' ! r = ready_of k (promiseLODs k w) i" unfolding rs by auto
  qed
  have t: "tasks w' = tasks w" "\<forall>k. promiseLODs k w' = promiseLODs k w"
    using Ready(6) by (simp_all add: keeps_defs)
  have R1: "\<not> readyCalled w' \<longrightarrow> readies w' = []" using Ready(2) by simp
  have R2: "distinct (map ready_key (readies w'))"
    unfolding rs by (auto simp: distinct_map ready_key_def ready_of_def inj_on_def)
  have nf: "\<And>r. r < length (readies w') \<Longrightarrow> \<not> r_fired (readies w' ! r)"
    using el by (force simp: ready_of_def)
  have R3: "\<forall>k i. count_list (events w') (LODsLoaded k i)
            = (if \<exists>r < length (readies w'). ready_key (readies w' ! r) = (k, i) \<and> r_fired (readies w' ! r)
               then 1 else 0)"
    using nf no' by (auto simp: count_list_0_iff)
  have R4: "\<forall>r < length (readies w'). r_fired (readies w' ! r) \<longrightarrow>
            (\<exists>ps. r_all (readies w' ! r) = Some ps \<and> all_fulfilled w' ps)"
    using nf by blast
  have R5: "\<forall>r < length (readies w'). \<forall>ps. r_all (readies w' ! r) = Some ps \<longrightarrow>
            (\<forall>p \<in> set ps. p < length (tasks w') \<and> t_kind (tasks w' ! p) = r_kind (readies w' ! r)
                \<and> t_index (tasks w' ! p) = r_index (readies w' ! r))"
  proof (intro allI impI ballI)
    fix r ps p assume a: "r < length (readies w')" "r_all (readies w' ! r) = Some ps" "p \<in> set ps"
    from el[OF a(1)] obtain k i where ki: "readies w' ! r = ready_of k (promiseLODs k w) i" by blast
    then have "js_get (promiseLODs k w) i = Some ps" using a(2) by (simp add: ready_of_def)
    then have "p < length (tasks w) \<and> t_kind (tasks w ! p) = k \<and> t_index (tasks w ! p) = i"
      using inv a(3) by blast
    then show "p < length (tasks w') \<and> t_kind (tasks w' ! p) = r_kind (readies w' ! r)
                \<and> t_index (tasks w' ! p) = r_index (readies w' ! r)"
      by (simp add: t ki ready_of_def)
  qed
  have P1: "\<forall>k i ps. js_get (promiseLODs k w') i = Some ps \<longrightarrow>
            (\<forall>p \<in> set ps. p < length (tasks w') \<and> t_kind (tasks w' ! p) = k \<and> t_index (tasks w' ! p) = i)"
    by (rule promises_same[OF assms(2) t(2)]) (simp_all add: t)
  have H: "hist (ready_fire (readies w')) (events w')"
    by (rule hist_all) (use no' in \<open>auto simp: ready_fire_def split: event.splits\<close>)
  show ?thesis unfolding ready_inv_def using R1 R2 R3 R4 R5 P1 H by blast
next
  case (Settle p outcome)
  have same: "\<And>q. q < length (tasks w) \<Longrightarrow> t_then (tasks w' ! q) = t_then (tasks w ! q)
      \<and> t_kind (tasks w' ! q) = t_kind (tasks w ! q) \<and> t_index (tasks w' ! q) = t_index (tasks w ! q)"
    using Settle(1) by (simp add: Settle(3) nth_list_update)
  have len: "length (tasks w') = length (tasks w)" by (simp add: Settle(3))
  have pl: "\<forall>k i ps. js_get (promiseLODs k w') i = Some ps \<longrightarrow>
            (\<forall>p \<in> set ps. p < length (tasks w') \<and> t_kind (tasks w' ! p) = k \<and> t_index (tasks w' ! p) = i)"
    by (rule promises_same[OF assms(2) Settle(4)]) (use same len in simp_all)
  have ev: "events w' = [Settle p (outcome \<noteq> None)] @ events w" by (simp add: Settle(5))
  show ?thesis
    by (rule ready_inv_frame[OF assms(2) Settle(8) pl _ _ ev]) (use same len in simp_all)
next
  case (ThenNode p v es)
  have same: "\<And>q. q < length (tasks w) \<Longrightarrow>
      t_kind (tasks w' ! q) = t_kind (tasks w ! q) \<and> t_index (tasks w' ! q) = t_index (tasks w ! q)
      \<and> (t_then (tasks w ! q) = Fulfilled () \<longrightarrow> t_then (tasks w' ! q) = Fulfilled ())"
    using ThenNode(1) by (simp add: ThenNode(5) nth_list_update)
  have len: "length (tasks w') = length (tasks w)" by (simp add: ThenNode(5))
  have pl: "\<forall>k i ps. js_get (promiseLODs k w') i = Some ps \<longrightarrow>
            (\<forall>p \<in> set ps. p < length (tasks w') \<and> t_kind (tasks w' ! p) = k \<and> t_index (tasks w' ! p) = i)"
    by (rule promises_same[OF assms(2) ThenNode(6)]) (use same len in simp_all)
  have ev: "events w' = (SetEnabledTrue p v # es) @ events w" by (simp add: ThenNode(7))
  show ?thesis
    by (rule ready_inv_frame[OF assms(2) ThenNode(11) pl _ _ ev]) (use same len ThenNode(8) in auto)
next
  case (ThenMaterial p v res es)
  have same: "\<And>q. q < length (tasks w) \<Longrightarrow>
      t_kind (tasks w' ! q) = t_kind (tasks w ! q) \<and> t_index (tasks w' ! q) = t_index (tasks w ! q)
      \<and> (t_then (tasks w ! q) = Fulfilled () \<longrightarrow> t_then (tasks w' ! q) = Fulfilled ())"
    using ThenMaterial(1,2) by (auto simp: ThenMaterial(5) nth_list_update)
  have len: "length (tasks w') = length (tasks w)" by (simp add: ThenMaterial(5))
  have pl: "\<forall>k i ps. js_get (promiseLODs k w') i = Some ps \<longrightarrow>
            (\<forall>p \<in> set ps. p < length (tasks w') \<and> t_kind (tasks w' ! p) = k \<and> t_index (tasks w' ! p) = i)"
    by (rule promises_same[OF assms(2) ThenMaterial(7)]) (use same len in simp_all)
  show ?thesis
    by (rule ready_inv_frame[OF assms(2) ThenMaterial(12) pl _ _ ThenMaterial(8)])
       (use same len ThenMaterial(9) in auto)
next
  case (Fire r ps k i)
  note inv = assms(2)[unfolded ready_inv_def]
  note linv = assms(3)[unfolded load_inv_def]
  let ?rs = "readies w" and ?rs' = "readies w'"
  have t: "tasks w' = tasks w" "\<forall>k. promiseLODs k w' = promiseLODs k w"
    using Fire(11) by (simp_all add: keeps_defs)
  have len: "length ?rs' = length ?rs" by (simp add: Fire(7))
  have same: "\<And>q. q < length ?rs \<Longrightarrow> r_kind (?rs' ! q) = r_kind (?rs ! q)
      \<and> r_index (?rs' ! q) = r_index (?rs ! q) \<and> r_all (?rs' ! q) = r_all (?rs ! q)
      \<and> ready_key (?rs' ! q) = ready_key (?rs ! q)"
    using Fire(1) by (simp add: Fire(7) nth_list_update ready_key_def)
  have other: "\<And>q. q < length ?rs \<Longrightarrow> q \<noteq> r \<Longrightarrow> ?rs' ! q = ?rs ! q" by (simp add: Fire(7))
  have fr: "r_fired (?rs' ! r)" using Fire(1) by (simp add: Fire(7))
  have key: "ready_key (?rs ! r) = (k, i)" by (simp add: ready_key_def Fire(5,6))
  have uniq: "\<And>q. q < length ?rs \<Longrightarrow> ready_key (?rs ! q) = (k, i) \<Longrightarrow> q = r"
    using distinct_key_eq[of ready_key ?rs _ r] inv Fire(1) key by simp
  have keys: "map ready_key ?rs' = map ready_key ?rs"
    by (rule nth_equalityI) (use same len in simp_all)
  from Fire(9) obtain new where ev: "events w' = new @ LODsLoaded k i # events w"
    "\<forall>e \<in> set new. \<forall>k i. e \<noteq> LODsLoaded k i"
    by (auto intro: that[of "[]"] that[of "[_]"])
  have cnt: "\<And>k' i'. count_list (events w') (LODsLoaded k' i')
      = (if (k', i') = (k, i) then 1 else 0) + count_list (events w) (LODsLoaded k' i')"
    using ev(2) by (auto simp: ev(1) count_list_0_iff)
  have setl: "\<forall>p \<in> set ps. Settle p True \<in> set (events w)"
  proof
    fix p assume "p \<in> set ps"
    then have "p < length (tasks w)" "t_then (tasks w ! p) = Fulfilled ()"
      using Fire(4) by (auto simp: all_fulfilled_def list_all_iff)
    then show "Settle p True \<in> set (events w)" using linv by (metis promise.distinct(1))
  qed
  have R1: "\<not> readyCalled w' \<longrightarrow> readies w' = []" using inv Fire(1,8) by auto
  have R2: "distinct (map ready_key (readies w'))" using inv keys by simp
  have R3: "\<forall>k' i'. count_list (events w') (LODsLoaded k' i')
            = (if \<exists>q < length (readies w'). ready_key (readies w' ! q) = (k', i') \<and> r_fired (readies w' ! q)
               then 1 else 0)"
  proof (intro allI)
    fix k' i'
    show "count_list (events w') (LODsLoaded k' i')
            = (if \<exists>q < length (readies w'). ready_key (readies w' ! q) = (k', i') \<and> r_fired (readies w' ! q)
               then 1 else 0)"
    proof (cases "(k', i') = (k, i)")
      case True
      have "\<not> (\<exists>q < length ?rs. ready_key (?rs ! q) = (k, i) \<and> r_fired (?rs ! q))"
        using uniq Fire(2) by blast
      then have "count_list (events w) (LODsLoaded k i) = 0" using inv by simp
      moreover have "\<exists>q < length ?rs'. ready_key (?rs' ! q) = (k, i) \<and> r_fired (?rs' ! q)"
        using fr key same[of r] Fire(1) len by auto
      ultimately show ?thesis using True cnt[of k i] by simp
    next
      case False
      have "(\<exists>q < length ?rs'. ready_key (?rs' ! q) = (k', i') \<and> r_fired (?rs' ! q))
          \<longleftrightarrow> (\<exists>q < length ?rs. ready_key (?rs ! q) = (k', i') \<and> r_fired (?rs ! q))"
        using False key other same len by (metis)
      then show ?thesis using False cnt[of k' i'] inv by simp
    qed
  qed
  have R4: "\<forall>q < length (readies w'). r_fired (readies w' ! q) \<longrightarrow>
            (\<exists>ps. r_all (readies w' ! q) = Some ps \<and> all_fulfilled w' ps)"
  proof (intro allI impI)
    fix q assume q: "q < length ?rs'" "r_fired (?rs' ! q)"
    have af: "\<And>ps. all_fulfilled w' ps = all_fulfilled w ps" by (simp add: all_fulfilled_def t)
    show "\<exists>ps. r_all (?rs' ! q) = Some ps \<and> all_fulfilled w' ps"
    proof (cases "q = r")
      case True
      then show ?thesis using same[of r] Fire(1,3,4) af by simp
    next
      case False
      then show ?thesis using q other len inv af by simp
    qed
  qed
  have R5: "\<forall>q < length (readies w'). \<forall>ps. r_all (readies w' ! q) = Some ps \<longrightarrow>
            (\<forall>p \<in> set ps. p < length (tasks w') \<and> t_kind (tasks w' ! p) = r_kind (readies w' ! q)
                \<and> t_index (tasks w' ! p) = r_index (readies w' ! q))"
    using inv same len t(1) by simp
  have P1: "\<forall>k i ps. js_get (promiseLODs k w') i = Some ps \<longrightarrow>
            (\<forall>p \<in> set ps. p < length (tasks w') \<and> t_kind (tasks w' ! p) = k \<and> t_index (tasks w' ! p) = i)"
    by (rule promises_same[OF assms(2) t(2)]) (simp_all add: t)
  have rf: "\<And>e pre. ready_fire ?rs e pre \<Longrightarrow> ready_fire ?rs' e pre"
    using same len by (auto simp: ready_fire_def split: event.splits)
  have H0: "hist (ready_fire ?rs') (events w)" by (rule hist_mono[OF _ rf]) (use inv in blast)
  have new: "ready_fire ?rs' (LODsLoaded k i) (events w)"
  proof -
    have "\<forall>q < length ?rs. r_kind (?rs ! q) = k \<and> r_index (?rs ! q) = i \<longrightarrow>
             (\<exists>ps. r_all (?rs ! q) = Some ps \<and> (\<forall>p \<in> set ps. Settle p True \<in> set (events w)))"
      using uniq Fire(3) setl by (auto simp: ready_key_def)
    then show ?thesis using same len by simp
  qed
  have H: "hist (ready_fire ?rs') (events w')"
    unfolding ev(1) by (rule hist_trivial) (use ev(2) new H0 in \<open>auto simp: ready_fire_def split: event.splits\<close>)
  show ?thesis unfolding ready_inv_def using R1 R2 R3 R4 R5 P1 H by blast
next
  case (UriRun u)
  show ?thesis
    by (rule ready_inv_frame[OF assms(2), of _ "[LoadUri u (u_kind (uris w ! u)) (u_prev (uris w ! u))]"],
        (use UriRun in \<open>simp add: keeps_defs\<close>)?,
        rule promises_same[OF assms(2)]) (use UriRun in \<open>simp_all add: keeps_defs\<close>)
qed

subsection \<open>The swap of the levels of a node\<close>

lemma reachable_invs:
  assumes "exec ls (init a b c d e) = Inr w"
  shows "uri_inv w \<and> load_inv w \<and> ready_inv w"
  by (rule exec_invariant[OF assms])
     (auto simp: uri_inv_init load_inv_init ready_inv_init
           intro: uri_inv_step load_inv_step ready_inv_step)

lemma map_sum_InrD: "map_sum f g x = Inr y \<Longrightarrow> \<exists>w. x = Inr w \<and> g w = y"
  by (cases x) auto

lemma in_set_split3:
  assumes "x \<in> set (post @ e # pre)" "x \<noteq> e" "x \<notin> set pre"
  shows "x \<in> set post"
  using assms by auto

lemma loadNodeAsync_then_events:
  assumes "t_index t \<noteq> 0" "node_field w0 (t_lods t ! (t_index t - 1)) = Some tn"
  shows "\<exists>ds. events (loadNodeAsync_then p t v w0)
             = SetEnabledTrue p v # rev (map DisposeMaterial ds) @ DisposeNode p tn # events w0"
  using assms
  by (auto simp: loadNodeAsync_then_def disposeUnusedMaterials_def Let_def split: option.splits prod.splits
           intro: exI[of _ "[]"])

text \<open>
  Claim C3: in every execution, the transform node of level \<open>i - 1\<close> of a node is disposed
  (\<open>DisposeNode p tn\<close>, by the continuation \<open>p\<close> of a level \<open>i \<ge> 1\<close>) only after the
  loader's promise of level \<open>i\<close> has been fulfilled (\<open>Settle p True\<close> is earlier in the
  history) and before the transform node of level \<open>i\<close> is enabled (\<open>SetEnabledTrue p v\<close>
  is not earlier and is later in the history, \<open>v\<close> being the value of the promise); the
  continuation of a level \<open>i \<ge> 1\<close> whose previous level still has its transform node
  disposes that node, then the unused materials, then enables its own node.
\<close>

theorem node_swap_order:
  assumes "exec ls (init a b c d e) = Inr w" and "events w = post @ DisposeNode p tn # pre"
  shows "p < length (tasks w) \<and> t_kind (tasks w ! p) = NodeK \<and> 1 \<le> t_index (tasks w ! p)
     \<and> Settle p True \<in> set pre
     \<and> (\<forall>v. SetEnabledTrue p v \<notin> set pre)
     \<and> (\<exists>v. t_host (tasks w ! p) = Fulfilled v \<and> SetEnabledTrue p v \<in> set post)
     \<and> (\<forall>q t v w0 tn'. t_index t \<noteq> 0 \<and> node_field w0 (t_lods t ! (t_index t - 1)) = Some tn' \<longrightarrow>
           (\<exists>ds. events (loadNodeAsync_then q t v w0)
               = SetEnabledTrue q v # rev (map DisposeMaterial ds) @ DisposeNode q tn' # events w0))"
proof -
  have inv: "load_inv w" using reachable_invs[OF assms(1)] by blast
  note i = inv[unfolded load_inv_def]
  have d: "DisposeNode p tn \<in> set (events w)" by (simp add: assms(2))
  have 1: "p < length (tasks w) \<and> t_kind (tasks w ! p) = NodeK \<and> t_index (tasks w ! p) \<noteq> 0"
    using i d by blast
  obtain v where v: "SetEnabledTrue p v \<in> set (events w)" using i d by blast
  have 2: "node_swap (DisposeNode p tn) pre"
    by (rule hist_split[of _ post]) (use i assms(2) in simp)
  then have 3: "Settle p True \<in> set pre" "\<And>v. SetEnabledTrue p v \<notin> set pre" by simp_all
  have 4: "SetEnabledTrue p v \<in> set post"
    by (rule in_set_split3[of _ _ "DisposeNode p tn" pre]) (use v 3 assms(2) in simp_all)
  have 5: "t_host (tasks w ! p) = Fulfilled v" using i v by blast
  show ?thesis using 1 3 4 5 loadNodeAsync_then_events by (simp add: Suc_le_eq)
qed

theorem node_swap_order_witness:
  "\<exists>w. exec [CallLoadNode 1 (Some [0]), HostWriteNode 0 (Some 20), HostAssignNode 20, ReturnLoad,
             HostWriteNode 1 (Some 21), HostAssignNode 21, ReturnLoad, CallOnReady,
             SettleLoad 0 (Some 20), RunThen 0, SettleLoad 1 (Some 21), RunThen 1]
            (init 10 False None (Some 2) None) = Inr w
     \<and> events w = [SetEnabledTrue 1 21, DisposeNode 1 20, Settle 1 True, SetEnabledTrue 0 20,
                    Settle 0 True, SetEnabledFalse 21, SetEnabledFalse 20]
     \<and> t_index (tasks w ! 1) = 1
     \<and> Settle 1 True \<in> set [Settle 1 True, SetEnabledTrue 0 20, Settle 0 True, SetEnabledFalse 21,
                                SetEnabledFalse 20]
     \<and> (\<exists>v. t_host (tasks w ! 1) = Fulfilled v \<and> SetEnabledTrue 1 v \<in> set [SetEnabledTrue 1 21])"
proof -
  let ?tr = "[CallLoadNode 1 (Some [0]), HostWriteNode 0 (Some 20), HostAssignNode 20, ReturnLoad,
             HostWriteNode 1 (Some 21), HostAssignNode 21, ReturnLoad, CallOnReady,
             SettleLoad 0 (Some 20), RunThen 0, SettleLoad 1 (Some 21), RunThen 1]"
  let ?pre = "[Settle 1 True, SetEnabledTrue 0 20, Settle 0 True, SetEnabledFalse 21, SetEnabledFalse 20]"
  have "map_sum id (\<lambda>w. (events w, map t_index (tasks w))) (exec ?tr (init 10 False None (Some 2) None))
      = Inr ([SetEnabledTrue 1 21, DisposeNode 1 20, Settle 1 True, SetEnabledTrue 0 20,
                    Settle 0 True, SetEnabledFalse 21, SetEnabledFalse 20], [0, 1])"
    by code_simp
  from map_sum_InrD[OF this] obtain w where w: "exec ?tr (init 10 False None (Some 2) None) = Inr w"
    and ev: "events w = [SetEnabledTrue 1 21] @ DisposeNode 1 20 # ?pre"
    and ti: "map t_index (tasks w) = [0, 1]"
    by auto
  from node_swap_order[OF w ev]
  have "Settle 1 True \<in> set ?pre"
    "\<exists>v. t_host (tasks w ! 1) = Fulfilled v \<and> SetEnabledTrue 1 v \<in> set [SetEnabledTrue 1 21]"
    by blast+
  moreover have "t_index (tasks w ! 1) = 1"
  proof -
    have "length (tasks w) = 2" using ti by (metis length_map length_Cons list.size(3) numeral_2_eq_2)
    then have "map t_index (tasks w) ! 1 = t_index (tasks w ! 1)" by simp
    then show ?thesis using ti by simp
  qed
  ultimately show ?thesis using w ev by simp
qed

subsection \<open>Deferred loads\<close>



subsection \<open>The events of the levels\<close>

text \<open>
  Claim C2, as the spec states it: the event of level \<open>i\<close> fires exactly once, after the
  promise of level \<open>i\<close> of every tracked object has settled. In the code the promise of
  level \<open>1\<close> of the node settles by rejection: the continuation of \<^verbatim>\<open>Promise.all\<close> for
  level \<open>1\<close> can never run, and the event of level \<open>1\<close> never fires, although every
  promise of the level has settled.
\<close>

theorem level_event_counterexample:
  "map_sum id events
     (exec [CallLoadNode 1 (Some [0]), ReturnLoad, ReturnLoad, CallOnReady, SettleLoad 0 (Some 7),
            RunThen 0, RunReady 0, SettleLoad 1 None]
        (init 10 False None (Some 2) None))
     = Inr [Settle 1 False, LODsLoaded NodeK 0, SetEnabledTrue 0 7, Settle 0 True]
   \<and> map_sum id (map t_host \<circ> tasks)
     (exec [CallLoadNode 1 (Some [0]), ReturnLoad, ReturnLoad, CallOnReady, SettleLoad 0 (Some 7),
            RunThen 0, RunReady 0, SettleLoad 1 None]
        (init 10 False None (Some 2) None))
     = Inr [Fulfilled 7, Rejected]
   \<and> map_sum id (map r_index \<circ> readies)
     (exec [CallLoadNode 1 (Some [0]), ReturnLoad, ReturnLoad, CallOnReady, SettleLoad 0 (Some 7),
            RunThen 0, RunReady 0, SettleLoad 1 None]
        (init 10 False None (Some 2) None))
     = Inr [0, 1]
   \<and> map_sum id events
     (exec [CallLoadNode 1 (Some [0]), ReturnLoad, ReturnLoad, CallOnReady, SettleLoad 0 (Some 7),
            RunThen 0, RunReady 0, SettleLoad 1 None, RunReady 1]
        (init 10 False None (Some 2) None))
     = Inl Disabled
   \<and> map_sum id events
     (exec [CallLoadNode 1 (Some [0]), ReturnLoad, ReturnLoad, CallOnReady, SettleLoad 0 (Some 7),
            RunThen 0, RunReady 0, SettleLoad 1 None, RunThen 1]
        (init 10 False None (Some 2) None))
     = Inl Disabled"
  by code_simp

lemma ready_invD:
  assumes "ready_inv w"
  shows "\<not> readyCalled w \<Longrightarrow> readies w = []"
    and "distinct (map ready_key (readies w))"
    and "count_list (events w) (LODsLoaded k i)
            = (if \<exists>r < length (readies w). ready_key (readies w ! r) = (k, i) \<and> r_fired (readies w ! r)
               then 1 else 0)"
    and "r < length (readies w) \<Longrightarrow> r_fired (readies w ! r) \<Longrightarrow>
            \<exists>ps. r_all (readies w ! r) = Some ps \<and> all_fulfilled w ps"
    and "r < length (readies w) \<Longrightarrow> r_all (readies w ! r) = Some ps \<Longrightarrow> p \<in> set ps \<Longrightarrow>
            p < length (tasks w) \<and> t_kind (tasks w ! p) = r_kind (readies w ! r)
                \<and> t_index (tasks w ! p) = r_index (readies w ! r)"
    and "hist (ready_fire (readies w)) (events w)"
  using assms unfolding ready_inv_def by blast+

lemma load_invD:
  assumes "load_inv w"
  shows "p < length (tasks w) \<Longrightarrow> t_host (tasks w ! p) = Fulfilled v \<Longrightarrow> Settle p True \<in> set (events w)"
    and "p < length (tasks w) \<Longrightarrow> t_then (tasks w ! p) \<noteq> Pending \<Longrightarrow> \<exists>v. t_host (tasks w ! p) = Fulfilled v"
  using assms unfolding load_inv_def by blast+

lemma onReady_buffers_readies: "onReady_buffers is w = Inr w' \<Longrightarrow> readies w' = readies w"
  using onReady_buffers_Inr[of "is" w w'] by auto

lemma onReady_readies:
  assumes "onReady w = Inr w'"
  shows "readies w' = readies w
           @ map (ready_of NodeK (nodePromiseLODs w)) [0..<length (nodePromiseLODs w)]
           @ map (ready_of MaterialK (materialPromiseLODs w)) [0..<length (materialPromiseLODs w)]"
  using onReady_buffers_readies[OF assms[unfolded onReady_def]] by (simp add: ready_of_def[abs_def])

text \<open>
  Claim C2, amended: in every execution the event of level \<open>i\<close> of the nodes, and of the
  materials, fires at most once; when it has fired, the promise of level \<open>i\<close> of every
  object tracked at that level had been fulfilled by the loader before, and its
  continuation has run; if one of these promises is rejected the event has not fired
  and cannot fire; once all of them are fulfilled the event has fired once or can fire,
  and fires once then. The step that fires the event of a level that is not the last
  one resolves the signal of that level if it exists. \<^verbatim>\<open>onReady\<close> registers one such
  continuation for every level of the nodes and of the materials.
\<close>

theorem level_event:
  assumes "exec ls (init a b c d e) = Inr w"
  shows "count_list (events w) (LODsLoaded k i) \<le> 1
     \<and> (\<forall>post pre. events w = post @ LODsLoaded k i # pre \<longrightarrow>
          (\<exists>r ps. r < length (readies w) \<and> r_kind (readies w ! r) = k \<and> r_index (readies w ! r) = i
              \<and> r_fired (readies w ! r) \<and> r_all (readies w ! r) = Some ps
              \<and> (\<forall>p \<in> set ps. p < length (tasks w) \<and> t_kind (tasks w ! p) = k
                    \<and> t_index (tasks w ! p) = i \<and> Settle p True \<in> set pre
                    \<and> t_then (tasks w ! p) = Fulfilled ())))
     \<and> (\<forall>r ps p. r < length (readies w) \<and> r_kind (readies w ! r) = k \<and> r_index (readies w ! r) = i
            \<and> r_all (readies w ! r) = Some ps \<and> p \<in> set ps \<and> t_host (tasks w ! p) = Rejected \<longrightarrow>
          LODsLoaded k i \<notin> set (events w) \<and> (\<forall>w'. step (RunReady r) w \<noteq> Inr w'))
     \<and> (\<forall>r ps. r < length (readies w) \<and> r_kind (readies w ! r) = k \<and> r_index (readies w ! r) = i
            \<and> r_all (readies w ! r) = Some ps \<and> all_fulfilled w ps \<and> stack w = [] \<longrightarrow>
          (if r_fired (readies w ! r) then count_list (events w) (LODsLoaded k i) = 1
           else \<exists>w'. step (RunReady r) w = Inr w' \<and> count_list (events w') (LODsLoaded k i) = 1))
     \<and> (\<forall>r w'. step (RunReady r) w = Inr w' \<and> r_kind (readies w ! r) = k \<and> r_index (readies w ! r) = i
            \<longrightarrow> LODsLoaded k i \<in> set (events w')
              \<and> (int i \<noteq> int (length (promiseLODs k w)) - 1 \<and> signals k w (int i) \<noteq> None
                    \<longrightarrow> signals k w' (int i) = Some True \<and> ResolveSignal k i \<in> set (events w')))
     \<and> (\<forall>w'. step CallOnReady w = Inr w' \<longrightarrow>
          readies w' = map (ready_of NodeK (nodePromiseLODs w)) [0..<length (nodePromiseLODs w)]
             @ map (ready_of MaterialK (materialPromiseLODs w)) [0..<length (materialPromiseLODs w)])"
proof -
  have inv: "ready_inv w" and linv: "load_inv w" using reachable_invs[OF assms(1)] by blast+
  note R = ready_invD[OF inv]
  note L = load_invD[OF linv]
  let ?rs = "readies w"
  have uniq: "\<And>q r. q < length ?rs \<Longrightarrow> r < length ?rs \<Longrightarrow> ready_key (?rs ! q) = ready_key (?rs ! r) \<Longrightarrow> q = r"
    by (rule distinct_key_eq[of ready_key ?rs, OF R(2)])
  have ful: "p < length (tasks w) \<and> t_then (tasks w ! p) = Fulfilled () \<and> (\<exists>v. t_host (tasks w ! p) = Fulfilled v)"
    if "all_fulfilled w ps" "p \<in> set ps" for ps p
  proof -
    from that have a: "p < length (tasks w)" "t_then (tasks w ! p) = Fulfilled ()"
      by (auto simp: all_fulfilled_def list_all_iff)
    have "t_then (tasks w ! p) \<noteq> Pending" using a(2) by simp
    from L(2)[OF a(1) this] show ?thesis using a by simp
  qed
  note cnt = R(3)[of k i]
  have 1: "count_list (events w) (LODsLoaded k i) \<le> 1" using cnt by simp
  have 2: "\<exists>r ps. r < length ?rs \<and> r_kind (?rs ! r) = k \<and> r_index (?rs ! r) = i
              \<and> r_fired (?rs ! r) \<and> r_all (?rs ! r) = Some ps
              \<and> (\<forall>p \<in> set ps. p < length (tasks w) \<and> t_kind (tasks w ! p) = k
                    \<and> t_index (tasks w ! p) = i \<and> Settle p True \<in> set pre
                    \<and> t_then (tasks w ! p) = Fulfilled ())"
    if ev: "events w = post @ LODsLoaded k i # pre" for post pre
  proof -
    have "LODsLoaded k i \<in> set (events w)" by (simp add: ev)
    then have "count_list (events w) (LODsLoaded k i) \<noteq> 0" by (simp add: count_list_0_iff)
    then obtain r where r: "r < length ?rs" "ready_key (?rs ! r) = (k, i)" "r_fired (?rs ! r)"
      using cnt by (auto split: if_splits)
    from R(4)[OF r(1,3)] obtain ps where ps: "r_all (?rs ! r) = Some ps" "all_fulfilled w ps" by blast
    have ki: "r_kind (?rs ! r) = k" "r_index (?rs ! r) = i" using r(2) by (simp_all add: ready_key_def)
    have rf: "ready_fire ?rs (LODsLoaded k i) pre" by (rule hist_split[of _ post]) (use R(6) ev in simp)
    then have s: "\<And>p. p \<in> set ps \<Longrightarrow> Settle p True \<in> set pre"
      using r(1) ki ps(1) by (simp add: ready_fire_def) (metis option.inject)
    have "p < length (tasks w) \<and> t_kind (tasks w ! p) = k
                    \<and> t_index (tasks w ! p) = i \<and> Settle p True \<in> set pre
                    \<and> t_then (tasks w ! p) = Fulfilled ()" if "p \<in> set ps" for p
      using s[OF that] ful[OF ps(2) that] R(5)[OF r(1) ps(1) that] ki by simp
    then show ?thesis
      by (intro exI[of _ r] exI[of _ ps]) (use r ps ki in simp)
  qed
  have 3: "LODsLoaded k i \<notin> set (events w) \<and> (\<forall>w'. step (RunReady r) w \<noteq> Inr w')"
    if h: "r < length ?rs" "r_kind (?rs ! r) = k" "r_index (?rs ! r) = i"
      "r_all (?rs ! r) = Some ps" "p \<in> set ps" "t_host (tasks w ! p) = Rejected" for r ps p
  proof -
    have na: "\<not> all_fulfilled w ps" using ful[of ps p] h(5,6) by auto
    have key: "ready_key (?rs ! r) = (k, i)" using h by (simp add: ready_key_def)
    have nf: "\<not> r_fired (?rs ! r)" using R(4)[OF h(1)] h(4) na by auto
    have ne: "\<not> (\<exists>q < length ?rs. ready_key (?rs ! q) = (k, i) \<and> r_fired (?rs ! q))"
    proof
      assume "\<exists>q < length ?rs. ready_key (?rs ! q) = (k, i) \<and> r_fired (?rs ! q)"
      then obtain q where q: "q < length ?rs" "ready_key (?rs ! q) = (k, i)" "r_fired (?rs ! q)" by blast
      then have "q = r" using uniq[OF q(1) h(1)] key by simp
      then show False using q(3) nf by simp
    qed
    have "count_list (events w) (LODsLoaded k i) = 0" by (simp only: cnt ne if_False)
    then have "LODsLoaded k i \<notin> set (events w)" by (simp add: count_list_0_iff)
    moreover have "step (RunReady r) w \<noteq> Inr w'" for w'
      using na h(4) by (auto simp: async_def ready_run_def split: if_splits option.splits)
    ultimately show ?thesis by blast
  qed
  have 4: "if r_fired (?rs ! r) then count_list (events w) (LODsLoaded k i) = 1
           else \<exists>w'. step (RunReady r) w = Inr w' \<and> count_list (events w') (LODsLoaded k i) = 1"
    if h: "r < length ?rs" "r_kind (?rs ! r) = k" "r_index (?rs ! r) = i"
      "r_all (?rs ! r) = Some ps" "all_fulfilled w ps" "stack w = []" for r ps
  proof (cases "r_fired (?rs ! r)")
    case True
    have "\<exists>q < length ?rs. ready_key (?rs ! q) = (k, i) \<and> r_fired (?rs ! q)"
      by (rule exI[of _ r]) (use h True in \<open>simp add: ready_key_def\<close>)
    then show ?thesis using cnt True by simp
  next
    case False
    let ?w' = "onReady_then k i (w\<lparr>readies := ?rs[r := (?rs ! r)\<lparr>r_fired := True\<rparr>]\<rparr>)"
    have st: "step (RunReady r) w = Inr ?w'"
      using h False by (simp add: async_def ready_run_def)
    have inv': "ready_inv ?w'" by (rule ready_inv_step[OF st inv linv])
    have rs': "readies ?w' = ?rs[r := (?rs ! r)\<lparr>r_fired := True\<rparr>]"
      by (simp add: onReady_then_def resolve_signal_def Let_def split: option.splits kind.splits)
    have "\<exists>q < length (readies ?w'). ready_key (readies ?w' ! q) = (k, i) \<and> r_fired (readies ?w' ! q)"
      unfolding rs' by (rule exI[of _ r]) (use h in \<open>simp add: ready_key_def\<close>)
    then have "count_list (events ?w') (LODsLoaded k i) = 1"
      using ready_invD(3)[OF inv', of k i] by simp
    then show ?thesis using st False by auto
  qed
  have 5: "LODsLoaded k i \<in> set (events w')
              \<and> (int i \<noteq> int (length (promiseLODs k w)) - 1 \<and> signals k w (int i) \<noteq> None
                    \<longrightarrow> signals k w' (int i) = Some True \<and> ResolveSignal k i \<in> set (events w'))"
    if "step (RunReady r) w = Inr w'" "r_kind (?rs ! r) = k" "r_index (?rs ! r) = i" for r w'
    using that
    by (auto simp: async_def ready_run_def onReady_then_def resolve_signal_def Let_def signals_def
          promiseLODs_def split: if_splits option.splits kind.splits)
  have 6: "readies w' = map (ready_of NodeK (nodePromiseLODs w)) [0..<length (nodePromiseLODs w)]
             @ map (ready_of MaterialK (materialPromiseLODs w)) [0..<length (materialPromiseLODs w)]"
    if st: "step CallOnReady w = Inr w'" for w'
  proof -
    have nr: "\<not> readyCalled w" using st by (auto split: if_splits)
    then have "readies w = []" by (rule R(1))
    moreover from st have "onReady w = Inr w'" using nr by (auto simp: call_def split: sum.splits)
    note onReady_readies[OF this]
    ultimately show ?thesis by simp
  qed
  show ?thesis using 1 2 3 4 5 6 by blast
qed

theorem level_event_witness:
  "\<exists>w. exec [CallLoadNode 1 (Some [0]), ReturnLoad, CallLoadUri, ReturnLoad, CallOnReady,
             SettleLoad 0 (Some 7), RunThen 0, RunReady 0]
            (init 10 False None (Some 2) None) = Inr w
     \<and> events w = [ResolveSignal NodeK 0, LODsLoaded NodeK 0, SetEnabledTrue 0 7, Settle 0 True]
     \<and> count_list (events w) (LODsLoaded NodeK 0) \<le> 1
     \<and> (\<exists>r ps. r < length (readies w) \<and> r_kind (readies w ! r) = NodeK \<and> r_index (readies w ! r) = 0
              \<and> r_fired (readies w ! r) \<and> r_all (readies w ! r) = Some ps
              \<and> (\<forall>p \<in> set ps. p < length (tasks w) \<and> t_kind (tasks w ! p) = NodeK
                    \<and> t_index (tasks w ! p) = 0
                    \<and> Settle p True \<in> set [SetEnabledTrue 0 7, Settle 0 True]
                    \<and> t_then (tasks w ! p) = Fulfilled ()))"
proof -
  let ?tr = "[CallLoadNode 1 (Some [0]), ReturnLoad, CallLoadUri, ReturnLoad, CallOnReady,
             SettleLoad 0 (Some 7), RunThen 0, RunReady 0]"
  let ?pre = "[SetEnabledTrue 0 7, Settle 0 True]"
  have "map_sum id events (exec ?tr (init 10 False None (Some 2) None))
      = Inr ([ResolveSignal NodeK 0] @ LODsLoaded NodeK 0 # ?pre)"
    by code_simp
  from map_sum_InrD[OF this] obtain w where w: "exec ?tr (init 10 False None (Some 2) None) = Inr w"
    and ev: "events w = [ResolveSignal NodeK 0] @ LODsLoaded NodeK 0 # ?pre"
    by auto
  note T = level_event[OF w, of NodeK 0]
  have 1: "count_list (events w) (LODsLoaded NodeK 0) \<le> 1" using T by blast
  have 2: "\<exists>r ps. r < length (readies w) \<and> r_kind (readies w ! r) = NodeK \<and> r_index (readies w ! r) = 0
              \<and> r_fired (readies w ! r) \<and> r_all (readies w ! r) = Some ps
              \<and> (\<forall>p \<in> set ps. p < length (tasks w) \<and> t_kind (tasks w ! p) = NodeK
                    \<and> t_index (tasks w ! p) = 0 \<and> Settle p True \<in> set ?pre
                    \<and> t_then (tasks w ! p) = Fulfilled ())"
    using T ev by blast
  show ?thesis using w ev 1 2 by simp
qed

subsection \<open>Materials inside a level of a node\<close>

text \<open>
  Claim C6: a material load requested while a level of a node is being loaded is not
  split in levels. In the code, inside level \<open>0\<close> of a node \<^verbatim>\<open>_indexLOD\<close> is \<open>0\<close>, the
  guard \<^verbatim>\<open>if (this._indexLOD)\<close> is false and \<^verbatim>\<open>_loadMaterialAsync\<close> enters the loop over
  the levels \<open>[0, 1]\<close> of the material; inside level \<open>1\<close> of the node it returns \<open>null\<close>.
\<close>

theorem material_split_at_level_0:
  "map_sum id this_indexLOD
     (exec [CallLoadNode 1 (Some [0])] (init 10 False None (Some 2) (Some 2))) = Inr (Some 0)
   \<and> map_sum id (map f_kind \<circ> stack)
     (exec [CallLoadNode 1 (Some [0])] (init 10 False None (Some 2) (Some 2))) = Inr [NodeK]
   \<and> map_sum id (map f_kind \<circ> stack)
     (exec [CallLoadNode 1 (Some [0]), CallLoadMaterial 1 (Some [0]) 5 4]
        (init 10 False None (Some 2) (Some 2))) = Inr [MaterialK, NodeK]
   \<and> map_sum id (map f_lods \<circ> stack)
     (exec [CallLoadNode 1 (Some [0]), CallLoadMaterial 1 (Some [0]) 5 4]
        (init 10 False None (Some 2) (Some 2))) = Inr [[0, 1], [0, 1]]
   \<and> map_sum id (map f_kind \<circ> stack)
     (exec [CallLoadNode 1 (Some [0]), ReturnLoad, CallLoadMaterial 1 (Some [0]) 5 4]
        (init 10 False None (Some 2) (Some 2))) = Inr [NodeK]"
  by code_simp

subsection \<open>Superseded materials\<close>

text \<open>
  Claim C7: the material of level \<open>i - 1\<close> is disposed only if no mesh still shows it.
  In the code, material \<open>1\<close> with the level \<open>[0]\<close> is loaded for the meshes \<open>5\<close> and \<open>6\<close>
  with the same draw mode; the continuation of level \<open>1\<close> for mesh \<open>5\<close> assigns the
  material \<open>101\<close> to mesh \<open>5\<close>, disposes the material \<open>100\<close> of level \<open>0\<close> and deletes its
  entry, while mesh \<open>6\<close>, listed in \<^verbatim>\<open>babylonMeshes\<close> of that entry, still shows \<open>100\<close>.
\<close>

theorem shared_material_disposed:
  "map_sum id (material_of 6) (exec shared_material (init 10 False None None (Some 2))) = Inr (Some 100)
   \<and> map_sum id materials (exec shared_material (init 10 False None None (Some 2)))
       = Inr (Some [Some [(4, \<lparr>babylonMaterial = 100, babylonMeshes = [5, 6]\<rparr>)],
                    Some [(4, \<lparr>babylonMaterial = 101, babylonMeshes = [5, 6]\<rparr>)]])
   \<and> map_sum id (take 2 \<circ> events)
        (exec (shared_material @ [RunThen 1]) (init 10 False None None (Some 2)))
       = Inr [DisposePrevMaterial 1 100, Assign 5 101]
   \<and> map_sum id (material_of 6)
        (exec (shared_material @ [RunThen 1]) (init 10 False None None (Some 2))) = Inr (Some 100)
   \<and> map_sum id materials (exec (shared_material @ [RunThen 1]) (init 10 False None None (Some 2)))
       = Inr (Some [Some [], Some [(4, \<lparr>babylonMaterial = 101, babylonMeshes = [5, 6]\<rparr>)]])"
  by code_simp

end
